theory Spec2Isabelle
  imports Main "HOL-Library.Sublist" "HOL-Library.Char_ord" "HOL-Library.List_Lexorder"
begin

section \<open>split\_cl.py: splitting a change into reviewable units\<close>

text \<open>
  The development embeds \<^verbatim>\<open>ChangeList\<close> and \<^verbatim>\<open>SplitCLs\<close> of
  \<^verbatim>\<open>split_cl.py\<close>. Python exceptions are values of \<open>error\<close>; a function that
  can raise returns \<open>error + 'a\<close>.
\<close>

datatype error = AssertionError | KeyError | TypeError

subsection \<open>Changed files and the owners database\<close>

text \<open>
  An affected file, as far as \<^verbatim>\<open>split_cl.py\<close> looks at it: \<^verbatim>\<open>LocalPath()\<close> and
  \<^verbatim>\<open>ChangeSizeInBytes()\<close>, a list of pairs whose components are added up. Python
  compares file objects by identity; here two files are the same when both fields agree.
\<close>

record changed_file =
  LocalPath :: string
  ChangeSizeInBytes :: "(int \<times> int) list"

text \<open>
  The owners database is a collaborator outside the repository's sources and is a
  parameter of every definition. \<^verbatim>\<open>all_possible_owners(files, author)\<close> returns a
  dictionary of which only the keys are read; \<^verbatim>\<open>files_not_covered_by(files, reviewers)\<close>
  returns a collection of which only the length is read. The paths handed over come out
  of a Python set in no particular order, so the database sees a set of paths.
\<close>

record owners_db =
  all_possible_owners :: "string set \<Rightarrow> string option \<Rightarrow> string set"
  files_not_covered_by :: "string set \<Rightarrow> string list \<Rightarrow> string set"

subsection \<open>class ChangeList\<close>

text \<open>
  The fields \<^verbatim>\<open>_path\<close>, \<^verbatim>\<open>_files\<close> and \<^verbatim>\<open>_owners\<close>. The fields \<^verbatim>\<open>_owners_db\<close>
  and \<^verbatim>\<open>_author\<close> hold the same two values in every object that \<^verbatim>\<open>SplitCLs\<close>
  creates; they are passed as arguments \<open>db\<close> and \<open>author\<close> instead.
  A method that mutates \<^verbatim>\<open>self\<close> (or \<^verbatim>\<open>other\<close>) returns the updated objects.
\<close>

record ChangeList =
  cl_path :: string
  cl_files :: "changed_file set"
  cl_owners :: "string set option"

definition new_ChangeList :: "string \<Rightarrow> changed_file set \<Rightarrow> ChangeList" where
  "new_ChangeList p fs = \<lparr>cl_path = p, cl_files = fs, cl_owners = None\<rparr>"

text \<open>
  \<^verbatim>\<open>_EnsureOwners\<close>: \<^verbatim>\<open>not self._owners\<close> holds for \<^verbatim>\<open>None\<close> and for the empty set.
  The loop over \<^verbatim>\<open>possible_owners\<close> keeps the owners that leave no file uncovered;
  the final \<^verbatim>\<open>assert\<close> fails on an empty result.
\<close>

definition EnsureOwners :: "owners_db \<Rightarrow> string option \<Rightarrow> ChangeList \<Rightarrow> error + ChangeList" where
  "EnsureOwners db author cl =
     (if cl_owners cl = None \<or> cl_owners cl = Some {} then
        (let files0 = LocalPath ` cl_files cl;
             files = (if files0 = {} then {cl_path cl} else files0);
             possible_owners = all_possible_owners db files author;
             os = Set.filter (\<lambda>owner. files_not_covered_by db files [owner] = {}) possible_owners
         in if os = {} then Inl AssertionError else Inr (cl\<lparr>cl_owners := Some os\<rparr>))
      else Inr cl)"

text \<open>\<^verbatim>\<open>GetOwners\<close> returns the field \<^verbatim>\<open>_owners\<close> as it is after \<^verbatim>\<open>_EnsureOwners\<close>.\<close>

definition GetOwners ::
  "owners_db \<Rightarrow> string option \<Rightarrow> ChangeList \<Rightarrow> error + (string set option \<times> ChangeList)" where
  "GetOwners db author cl =
     (case EnsureOwners db author cl of
        Inl e \<Rightarrow> Inl e
      | Inr cl' \<Rightarrow> Inr (cl_owners cl', cl'))"

text \<open>
  \<^verbatim>\<open>GetCommonOwners\<close>: \<^verbatim>\<open>self.GetOwners() & other.GetOwners()\<close>, left operand first.
  The operator \<^verbatim>\<open>&\<close> raises a TypeError on \<^verbatim>\<open>None\<close>.
\<close>

definition GetCommonOwners ::
  "owners_db \<Rightarrow> string option \<Rightarrow> ChangeList \<Rightarrow> ChangeList
     \<Rightarrow> error + (string set \<times> ChangeList \<times> ChangeList)" where
  "GetCommonOwners db author self other =
     (case GetOwners db author self of
        Inl e \<Rightarrow> Inl e
      | Inr (o1, self') \<Rightarrow>
          (case GetOwners db author other of
             Inl e \<Rightarrow> Inl e
           | Inr (o2, other') \<Rightarrow>
               (case (o1, o2) of
                  (Some a, Some b) \<Rightarrow> Inr (a \<inter> b, self', other')
                | _ \<Rightarrow> Inl TypeError)))"

definition HaveCommonOwners ::
  "owners_db \<Rightarrow> string option \<Rightarrow> ChangeList \<Rightarrow> ChangeList
     \<Rightarrow> error + (bool \<times> ChangeList \<times> ChangeList)" where
  "HaveCommonOwners db author self other =
     (case GetCommonOwners db author self other of
        Inl e \<Rightarrow> Inl e
      | Inr (common, self', other') \<Rightarrow> Inr (common \<noteq> {}, self', other'))"

text \<open>
  \<^verbatim>\<open>Merge\<close>: the owners become the common owners, then the files of \<^verbatim>\<open>other\<close> are
  added.
\<close>

definition Merge ::
  "owners_db \<Rightarrow> string option \<Rightarrow> ChangeList \<Rightarrow> ChangeList \<Rightarrow> error + (ChangeList \<times> ChangeList)" where
  "Merge db author self other =
     (case GetCommonOwners db author self other of
        Inl e \<Rightarrow> Inl e
      | Inr (common, self', other') \<Rightarrow>
          Inr (self'\<lparr>cl_owners := Some common, cl_files := cl_files self' \<union> cl_files other'\<rparr>,
               other'))"

definition file_size :: "changed_file \<Rightarrow> int" where
  "file_size f = sum_list (map (\<lambda>c. fst c + snd c) (ChangeSizeInBytes f))"

definition GetChangeSizeInBytes :: "ChangeList \<Rightarrow> int" where
  "GetChangeSizeInBytes cl = sum file_size (cl_files cl)"

subsection \<open>The trie of candidates\<close>

text \<open>
  Modelled from the spec: \<^verbatim>\<open>third_party.pygtrie\<close> is not among the sources. The trie is
  the ordered map of section 4.1 of the specification: insertion overwrites, and
  deletion, lookup, the keys sharing a prefix and all entries in sorted order are
  available. \<^verbatim>\<open>SplitCLs\<close> stores each path, a string, in a plain \<^verbatim>\<open>Trie\<close> and rebuilds
  the path from a returned key with \<^verbatim>\<open>''.join\<close>: a key is the sequence of the
  characters of the path, and a prefix is a prefix of that sequence. The model is the
  list of entries in strictly increasing order of the keys. Deleting or reading a
  missing key raises KeyError, as does asking for the keys below a non-empty prefix that
  no key has.
\<close>

type_synonym trie = "(string \<times> ChangeList) list"

fun trie_set :: "string \<Rightarrow> ChangeList \<Rightarrow> trie \<Rightarrow> trie" where
  "trie_set k v [] = [(k, v)]"
| "trie_set k v ((k', v') # t) =
     (if k = k' then (k, v) # t
      else if k < k' then (k, v) # (k', v') # t
      else (k', v') # trie_set k v t)"

definition trie_contains :: "string \<Rightarrow> trie \<Rightarrow> bool" where
  "trie_contains k t = (map_of t k \<noteq> None)"

definition trie_get :: "string \<Rightarrow> trie \<Rightarrow> error + ChangeList" where
  "trie_get k t = (case map_of t k of None \<Rightarrow> Inl KeyError | Some v \<Rightarrow> Inr v)"

definition trie_del :: "string \<Rightarrow> trie \<Rightarrow> error + trie" where
  "trie_del k t =
     (if trie_contains k t then Inr (filter (\<lambda>kv. fst kv \<noteq> k) t) else Inl KeyError)"

definition trie_keys :: "string \<Rightarrow> trie \<Rightarrow> error + string list" where
  "trie_keys p t =
     (let ks = filter (prefix p) (map fst t)
      in if ks = [] \<and> p \<noteq> [] then Inl KeyError else Inr ks)"

definition trie_items :: "trie \<Rightarrow> (string \<times> ChangeList) list" where
  "trie_items t = t"

text \<open>
  The trie and the list returned by \<^verbatim>\<open>items()\<close> hold references to the same
  \<^verbatim>\<open>ChangeList\<close> objects. After a method has mutated an object, \<open>trie_store\<close> puts
  the new value under the key of that object; a key that is gone stays gone.
\<close>

definition trie_store :: "string \<Rightarrow> ChangeList \<Rightarrow> trie \<Rightarrow> trie" where
  "trie_store k v t = map (\<lambda>kv. if fst kv = k then (k, v) else kv) t"

subsection \<open>os.path.dirname\<close>

text \<open>
  The POSIX version: the head is the path up to and including the last slash; unless it
  consists of slashes only, its trailing slashes are stripped.
\<close>

definition slash :: char where
  "slash = CHR ''/''"

definition rstrip_slash :: "string \<Rightarrow> string" where
  "rstrip_slash s = rev (dropWhile (\<lambda>c. c = slash) (rev s))"

definition dirname :: "string \<Rightarrow> string" where
  "dirname p =
     (let head = rev (dropWhile (\<lambda>c. c \<noteq> slash) (rev p))
      in if head \<noteq> [] \<and> head \<noteq> replicate (length head) slash
         then rstrip_slash head else head)"

subsection \<open>SplitCLs\<close>

record split_state =
  candidates :: trie
  change_lists :: "ChangeList list"
  edited :: bool

definition max_cl_size :: int where
  "max_cl_size = 1000"

text \<open>Step 1: one candidate for every affected file, in the order of iteration.\<close>

fun seed :: "changed_file list \<Rightarrow> trie \<Rightarrow> trie" where
  "seed [] t = t"
| "seed (f # fs) t = seed fs (trie_set (LocalPath f) (new_ChangeList (LocalPath f) {f}) t)"

text \<open>
  The body of the \<^verbatim>\<open>for\<close> loop of step 2.1 for one item of the snapshot; every
  \<^verbatim>\<open>continue\<close> returns the state reached so far.
\<close>

definition merge_item ::
  "owners_db \<Rightarrow> string option \<Rightarrow> string \<times> ChangeList \<Rightarrow> split_state \<Rightarrow> error + split_state" where
  "merge_item db author item s =
     (let path = fst item; candidate = snd item in
      case trie_keys path (candidates s) of
        Inl e \<Rightarrow> Inl e
      | Inr ks \<Rightarrow>
          let sub_cls = int (length ks) - 1 in
          if sub_cls \<noteq> 0 then Inr s
          else
            let parent_path = dirname path in
            if length parent_path < 1 then Inr s
            else
              let c1 = (if \<not> trie_contains parent_path (candidates s)
                        then trie_set parent_path (new_ChangeList parent_path {}) (candidates s)
                        else candidates s) in
              case trie_get parent_path c1 of
                Inl e \<Rightarrow> Inl e
              | Inr parent_cl \<Rightarrow>
                  (case HaveCommonOwners db author parent_cl candidate of
                     Inl e \<Rightarrow> Inl e
                   | Inr (common, parent_cl1, candidate1) \<Rightarrow>
                       let c2 = trie_store path candidate1 (trie_store parent_path parent_cl1 c1) in
                       if \<not> common then Inr (s\<lparr>candidates := c2\<rparr>)
                       else
                         (case trie_del path c2 of
                            Inl e \<Rightarrow> Inl e
                          | Inr c3 \<Rightarrow>
                              (case Merge db author parent_cl1 candidate1 of
                                 Inl e \<Rightarrow> Inl e
                               | Inr (parent_cl2, candidate2) \<Rightarrow>
                                   let c4 = trie_store parent_path parent_cl2 c3 in
                                   if GetChangeSizeInBytes parent_cl2 > max_cl_size then
                                     (case trie_del parent_path c4 of
                                        Inl e \<Rightarrow> Inl e
                                      | Inr c5 \<Rightarrow>
                                          Inr \<lparr>candidates = c5,
                                               change_lists = change_lists s @ [parent_cl2],
                                               edited = True\<rparr>)
                                   else Inr \<lparr>candidates = c4,
                                            change_lists = change_lists s,
                                            edited = True\<rparr>))))"

fun merge_items ::
  "owners_db \<Rightarrow> string option \<Rightarrow> (string \<times> ChangeList) list \<Rightarrow> split_state
     \<Rightarrow> error + split_state" where
  "merge_items db author [] s = Inr s"
| "merge_items db author (item # items) s =
     (case merge_item db author item s of
        Inl e \<Rightarrow> Inl e
      | Inr s' \<Rightarrow> merge_items db author items s')"

text \<open>One pass of the \<^verbatim>\<open>while\<close> loop: the flag is reset, the snapshot is walked.\<close>

definition merge_pass :: "owners_db \<Rightarrow> string option \<Rightarrow> split_state \<Rightarrow> error + split_state" where
  "merge_pass db author s =
     merge_items db author (trie_items (candidates s)) (s\<lparr>edited := False\<rparr>)"

text \<open>
  The \<^verbatim>\<open>while edited\<close> loop. \<^verbatim>\<open>edited\<close> starts as \<^verbatim>\<open>True\<close>, so the body runs at
  least once; the loop is left after the first pass that merges nothing.
\<close>

function merge_loop :: "owners_db \<Rightarrow> string option \<Rightarrow> split_state \<Rightarrow> error + split_state" where
  "merge_loop db author s =
     (case merge_pass db author s of
        Inl e \<Rightarrow> Inl e
      | Inr s' \<Rightarrow> if edited s' then merge_loop db author s' else Inr s')"
  by pat_completeness auto

text \<open>
  \<^verbatim>\<open>SplitCLs\<close>: the argument \<open>files\<close> lists the Python set \<^verbatim>\<open>files\<close> in the order
  in which the \<^verbatim>\<open>for\<close> loop of step 1 visits it. Step 3 appends what is left in the
  trie, in sorted order.
\<close>

definition SplitCLs ::
  "owners_db \<Rightarrow> string option \<Rightarrow> changed_file list \<Rightarrow> error + ChangeList list" where
  "SplitCLs owners_database author files =
     (case merge_loop owners_database author
             \<lparr>candidates = seed files [], change_lists = [], edited = True\<rparr> of
        Inl e \<Rightarrow> Inl e
      | Inr s \<Rightarrow> Inr (change_lists s @ map snd (trie_items (candidates s))))"

section \<open>Auxiliary notions\<close>

text \<open>All prefixes of the keys of a trie; the measure of the merge loop.\<close>

definition key_prefixes :: "trie \<Rightarrow> string set" where
  "key_prefixes t = (\<Union>k\<in>set (map fst t). set (prefixes k))"


text \<open>
  The trie after the parent candidate has been created if it was missing, and the parent
  candidate after a merge.
\<close>

definition with_parent :: "string \<Rightarrow> trie \<Rightarrow> trie" where
  "with_parent pp t =
     (if \<not> trie_contains pp t then trie_set pp (new_ChangeList pp {}) t else t)"

definition merged :: "ChangeList \<Rightarrow> ChangeList \<Rightarrow> string set \<Rightarrow> ChangeList" where
  "merged pc c os = pc\<lparr>cl_owners := Some os, cl_files := cl_files pc \<union> cl_files c\<rparr>"


text \<open>
  A simple owners database given by the owners of each path: an owner is possible for a
  set of paths when they own one of them and are not the author; a path is covered by a
  list of reviewers when one of them owns it.
\<close>

definition owners_of_db :: "(string \<Rightarrow> string set) \<Rightarrow> owners_db" where
  "owners_of_db owners_of =
     \<lparr>all_possible_owners =
        (\<lambda>files author. (\<Union>f\<in>files. owners_of f) - set_option author),
      files_not_covered_by =
        (\<lambda>files reviewers. Set.filter (\<lambda>f. owners_of f \<inter> set reviewers = {}) files)\<rparr>"

text \<open>Files and databases of the scenarios of the specification.\<close>

definition alice_db :: owners_db where
  "alice_db = owners_of_db (\<lambda>p. {''alice''})"

definition file_x :: changed_file where
  "file_x = \<lparr>LocalPath = ''a/x.txt'', ChangeSizeInBytes = [(50, 0)]\<rparr>"

definition file_y :: changed_file where
  "file_y = \<lparr>LocalPath = ''a/y.txt'', ChangeSizeInBytes = [(30, 30)]\<rparr>"

definition file_z :: changed_file where
  "file_z = \<lparr>LocalPath = ''b/z.txt'', ChangeSizeInBytes = [(2000, 0)]\<rparr>"

definition file_m :: changed_file where
  "file_m = \<lparr>LocalPath = ''p/m.txt'', ChangeSizeInBytes = [(10, 0)]\<rparr>"

definition file_n :: changed_file where
  "file_n = \<lparr>LocalPath = ''p/n.txt'', ChangeSizeInBytes = [(20, 0)]\<rparr>"

definition disjoint_db :: owners_db where
  "disjoint_db = owners_of_db (\<lambda>p. if p = ''p/m.txt'' then {''alice''}
                                   else if p = ''p/n.txt'' then {''bob''} else {''carol''})"


text \<open>What holds of a unit that the merge loop appends to the list of results.\<close>

definition emitted_in_loop :: "ChangeList \<Rightarrow> bool" where
  "emitted_in_loop u \<longleftrightarrow>
     GetChangeSizeInBytes u > max_cl_size \<and> (\<exists>os. cl_owners u = Some os \<and> os \<noteq> {})"

text \<open>A database without any owner, a file at the top level, and a database with a per-file owner.\<close>

definition nobody_db :: owners_db where
  "nobody_db = owners_of_db (\<lambda>p. {})"

definition file_readme :: changed_file where
  "file_readme = \<lparr>LocalPath = ''README'', ChangeSizeInBytes = [(1, 0)]\<rparr>"

definition perfile_db :: owners_db where
  "perfile_db = owners_of_db (\<lambda>p. if p = ''a/x.txt'' then {''alice'', ''bob''} else {''alice''})"

text \<open>A file with an empty path, two files with the same path, and a file one directory deep.\<close>

definition file_empty_path :: changed_file where
  "file_empty_path = \<lparr>LocalPath = [], ChangeSizeInBytes = [(5, 0)]\<rparr>"

definition file_dup1 :: changed_file where
  "file_dup1 = \<lparr>LocalPath = ''x/f.txt'', ChangeSizeInBytes = [(1, 0)]\<rparr>"

definition file_dup2 :: changed_file where
  "file_dup2 = \<lparr>LocalPath = ''x/f.txt'', ChangeSizeInBytes = [(2, 0)]\<rparr>"

definition file_dx :: changed_file where
  "file_dx = \<lparr>LocalPath = ''d/x'', ChangeSizeInBytes = [(7, 0)]\<rparr>"

text \<open>
  The merge loop with a bound on the number of passes: \<open>None\<close> when the bound is used up
  before a pass without a merge.
\<close>

fun merge_loop_bounded ::
  "nat \<Rightarrow> owners_db \<Rightarrow> string option \<Rightarrow> split_state \<Rightarrow> (error + split_state) option" where
  "merge_loop_bounded 0 db author s = None"
| "merge_loop_bounded (Suc n) db author s =
     (case merge_pass db author s of
        Inl e \<Rightarrow> Some (Inl e)
      | Inr s' \<Rightarrow> if edited s' then merge_loop_bounded n db author s' else Some (Inr s'))"


text \<open>The state with the single candidate \<^verbatim>\<open>d/x\<close>, and the state after its merge.\<close>

definition state_dx :: split_state where
  "state_dx = \<lparr>candidates = [(''d/x'', new_ChangeList ''d/x'' {file_dx})], change_lists = [], edited = False\<rparr>"

definition state_d :: split_state where
  "state_d = \<lparr>candidates = [(''d'', \<lparr>cl_path = ''d'', cl_files = {file_dx}, cl_owners = Some {''alice''}\<rparr>)],
          change_lists = [], edited = True\<rparr>"

text \<open>
  The approver set the database gives for a unit (lines 152 to 160 of the source), and the
  approver set of a unit as \<^verbatim>\<open>GetOwners\<close> sees it: the memoized one unless it is missing or
  empty.
\<close>

definition oracle_owners :: "owners_db \<Rightarrow> string option \<Rightarrow> ChangeList \<Rightarrow> string set" where
  "oracle_owners db author cl =
     (let files0 = LocalPath ` cl_files cl;
          files = (if files0 = {} then {cl_path cl} else files0)
      in Set.filter (\<lambda>owner. files_not_covered_by db files [owner] = {})
           (all_possible_owners db files author))"

definition current_owners :: "owners_db \<Rightarrow> string option \<Rightarrow> ChangeList \<Rightarrow> string set" where
  "current_owners db author cl =
     (case cl_owners cl of
        None \<Rightarrow> oracle_owners db author cl
      | Some os \<Rightarrow> if os = {} then oracle_owners db author cl else os)"


text \<open>A unit whose approver set is not the empty set: unresolved, or resolved and non-empty.\<close>

definition owners_resolved_or_unset :: "ChangeList \<Rightarrow> bool" where
  "owners_resolved_or_unset u \<longleftrightarrow> cl_owners u \<noteq> Some {}"


text \<open>
  The files that survive seeding: a file is dropped when a later file has the same path.
\<close>

fun last_per_path :: "changed_file list \<Rightarrow> changed_file list" where
  "last_per_path [] = []"
| "last_per_path (f # fs) =
     (if LocalPath f \<in> LocalPath ` set fs then last_per_path fs else f # last_per_path fs)"

text \<open>The trie as it is kept: keys in strictly increasing order.\<close>

definition sorted_trie :: "trie \<Rightarrow> bool" where
  "sorted_trie t \<longleftrightarrow> sorted_wrt (<) (map fst t)"

text \<open>
  A state with one more candidate, anchored at the empty path; the body of the loop from
  the lookup of the parent candidate on.
\<close>

definition with_root :: "ChangeList \<Rightarrow> split_state \<Rightarrow> split_state" where
  "with_root c0 s = s\<lparr>candidates := ([], c0) # candidates s\<rparr>"

definition lift_root :: "ChangeList \<Rightarrow> error + split_state \<Rightarrow> error + split_state" where
  "lift_root c0 r = (case r of Inl e \<Rightarrow> Inl e | Inr s \<Rightarrow> Inr (with_root c0 s))"

definition merge_attempt ::
  "owners_db \<Rightarrow> string option \<Rightarrow> string \<Rightarrow> ChangeList \<Rightarrow> split_state \<Rightarrow> trie
     \<Rightarrow> error + split_state" where
  "merge_attempt db a p c s c1 =
     (case trie_get (dirname p) c1 of
        Inl e \<Rightarrow> Inl e
      | Inr parent_cl \<Rightarrow>
          (case HaveCommonOwners db a parent_cl c of
             Inl e \<Rightarrow> Inl e
           | Inr (common, parent_cl1, candidate1) \<Rightarrow>
               let c2 = trie_store p candidate1 (trie_store (dirname p) parent_cl1 c1) in
               if \<not> common then Inr (s\<lparr>candidates := c2\<rparr>)
               else
                 (case trie_del p c2 of
                    Inl e \<Rightarrow> Inl e
                  | Inr c3 \<Rightarrow>
                      (case Merge db a parent_cl1 candidate1 of
                         Inl e \<Rightarrow> Inl e
                       | Inr (parent_cl2, candidate2) \<Rightarrow>
                           let c4 = trie_store (dirname p) parent_cl2 c3 in
                           if GetChangeSizeInBytes parent_cl2 > max_cl_size then
                             (case trie_del (dirname p) c4 of
                                Inl e \<Rightarrow> Inl e
                              | Inr c5 \<Rightarrow>
                                  Inr \<lparr>candidates = c5,
                                       change_lists = change_lists s @ [parent_cl2],
                                       edited = True\<rparr>)
                           else Inr \<lparr>candidates = c4,
                                    change_lists = change_lists s,
                                    edited = True\<rparr>))))"


text \<open>
  The count of sub-candidates as the specification words it: the entries whose path,
  split at the slashes, has the components of the given path as a strict prefix.
\<close>

fun split_on :: "char \<Rightarrow> string \<Rightarrow> string list" where
  "split_on c [] = [[]]"
| "split_on c (x # xs) =
     (if x = c then [] # split_on c xs
      else (case split_on c xs of [] \<Rightarrow> [[x]] | w # ws \<Rightarrow> (x # w) # ws))"

definition path_components :: "string \<Rightarrow> string list" where
  "path_components p = split_on slash p"

definition spec_subCandidateCount :: "string \<Rightarrow> trie \<Rightarrow> nat" where
  "spec_subCandidateCount P t =
     length (filter (\<lambda>k. strict_prefix (path_components P) (path_components k)) (map fst t))"

text \<open>
  Two sibling directories of which the name of one starts with the name of the other,
  their database, and the trie after the first pass over them.
\<close>

definition file_dax :: changed_file where
  "file_dax = \<lparr>LocalPath = ''d/a/x'', ChangeSizeInBytes = [(3, 0)]\<rparr>"

definition file_daby :: changed_file where
  "file_daby = \<lparr>LocalPath = ''d/ab/y'', ChangeSizeInBytes = [(4, 0)]\<rparr>"

definition sibling_db :: owners_db where
  "sibling_db = owners_of_db (\<lambda>p. if p = ''d/ab/y'' \<or> p = ''d/ab'' then {''bob''} else {''alice''})"

definition sibling_trie :: trie where
  "sibling_trie =
     [(''d/a'', \<lparr>cl_path = ''d/a'', cl_files = {file_dax}, cl_owners = Some {''alice''}\<rparr>),
      (''d/ab'', \<lparr>cl_path = ''d/ab'', cl_files = {file_daby}, cl_owners = Some {''bob''}\<rparr>)]"






text \<open>
  The number of units of a list whose file set holds a given file, and the invariant of
  the merge loop behind the partition of the input files \<open>F\<close>: the keys of the trie are
  strictly sorted and relative, and every file of \<open>F\<close> is held by one unit among the
  emitted units and the candidates, any other file by none.
\<close>

definition occurrences :: "changed_file \<Rightarrow> ChangeList list \<Rightarrow> nat" where
  "occurrences f us = length (filter (\<lambda>u. f \<in> cl_files u) us)"


section \<open>Properties of the building blocks\<close>

subsection \<open>dirname and the keys of the trie\<close>

lemma rstrip_prefix: "prefix (rstrip_slash s) s"
proof -
  have "suffix (dropWhile (\<lambda>c. c = slash) (rev s)) (rev s)"
    by (rule suffix_dropWhile)
  thus ?thesis unfolding rstrip_slash_def
    by (metis rev_rev_ident suffix_to_prefix)
qed

lemma head_prefix: "prefix (rev (dropWhile P (rev p))) p"
  by (metis rev_rev_ident suffix_dropWhile suffix_to_prefix)

lemma dirname_prefix: "prefix (dirname p) p"
  unfolding dirname_def Let_def
  using head_prefix[of "\<lambda>c. c \<noteq> slash" p] rstrip_prefix prefix_order.order_trans
  by (auto split: if_splits)

lemma keys_trie_set: "set (map fst (trie_set k v t)) = insert k (set (map fst t))"
  by (induction t) force+

lemma keys_trie_store: "map fst (trie_store k v t) = map fst t"
  by (induction t) (auto simp: trie_store_def)

lemma keys_trie_del: "trie_del k t = Inr t' \<Longrightarrow> set (map fst t') = set (map fst t) - {k} \<and> k \<in> set (map fst t)"
  by (force simp: trie_del_def trie_contains_def split: if_splits dest: map_of_SomeD) 

lemma finite_key_prefixes: "finite (key_prefixes t)"
  by (simp add: key_prefixes_def)

lemma key_prefixes_alt: "key_prefixes t = {q. \<exists>k\<in>set (map fst t). prefix q k}"
  by (force simp: key_prefixes_def in_set_prefixes)

subsection \<open>Approver sets\<close>

lemma EnsureOwners_Inr:
  assumes "EnsureOwners db a cl = Inr cl'"
  shows "\<exists>os. os \<noteq> {} \<and> cl' = cl\<lparr>cl_owners := Some os\<rparr>"
proof (cases "cl_owners cl = None \<or> cl_owners cl = Some {}")
  case True
  define fs where "fs = (if LocalPath ` cl_files cl = {} then {cl_path cl} else LocalPath ` cl_files cl)"
  define os where "os = Set.filter (\<lambda>owner. files_not_covered_by db fs [owner] = {})
                          (all_possible_owners db fs a)"
  have "EnsureOwners db a cl = (if os = {} then Inl AssertionError else Inr (cl\<lparr>cl_owners := Some os\<rparr>))"
    using True unfolding EnsureOwners_def Let_def os_def fs_def by simp
  with assms have "os \<noteq> {}" "cl' = cl\<lparr>cl_owners := Some os\<rparr>"
    by (auto split: if_splits)
  then show ?thesis by blast
next
  case False
  then obtain os where os: "cl_owners cl = Some os" "os \<noteq> {}" by auto
  from False have "EnsureOwners db a cl = Inr cl"
    unfolding EnsureOwners_def by (simp only: if_False)
  with assms have "cl' = cl" by simp
  with os show ?thesis by (intro exI[of _ os]) simp
qed

lemma EnsureOwners_memo:
  "cl_owners cl = Some os \<Longrightarrow> os \<noteq> {} \<Longrightarrow> EnsureOwners db a cl = Inr cl"
  by (simp add: EnsureOwners_def)

lemma GetOwners_Inr:
  assumes "GetOwners db a cl = Inr (r, cl')"
  shows "\<exists>os. os \<noteq> {} \<and> r = Some os \<and> cl' = cl\<lparr>cl_owners := Some os\<rparr>"
proof -
  from assms obtain c where c1: "EnsureOwners db a cl = Inr c"
    by (cases "EnsureOwners db a cl") (simp_all add: GetOwners_def)
  with assms have c: "EnsureOwners db a cl = Inr c" "r = cl_owners c" "cl' = c"
    by (auto simp: GetOwners_def)
  from EnsureOwners_Inr[OF c(1)] obtain os where os: "os \<noteq> {}" "c = cl\<lparr>cl_owners := Some os\<rparr>"
    by blast
  with c(2,3) show ?thesis by (intro exI[of _ os]) simp
qed

lemma GetOwners_memo:
  "cl_owners cl = Some os \<Longrightarrow> os \<noteq> {} \<Longrightarrow> GetOwners db a cl = Inr (Some os, cl)"
  by (simp add: GetOwners_def EnsureOwners_memo)

lemma GetCommonOwners_Inr:
  assumes "GetCommonOwners db a x y = Inr (common, x', y')"
  shows "\<exists>ox oy. ox \<noteq> {} \<and> oy \<noteq> {} \<and> common = ox \<inter> oy \<and>
            x' = x\<lparr>cl_owners := Some ox\<rparr> \<and> y' = y\<lparr>cl_owners := Some oy\<rparr>"
proof -
  from assms obtain r1 x1 where g1: "GetOwners db a x = Inr (r1, x1)"
    by (auto simp: GetCommonOwners_def split: sum.splits)
  from assms g1 obtain r2 y1 where g2: "GetOwners db a y = Inr (r2, y1)"
    by (auto simp: GetCommonOwners_def split: sum.splits)
  from GetOwners_Inr[OF g1] obtain ox where
    ox: "ox \<noteq> {}" "r1 = Some ox" "x1 = x\<lparr>cl_owners := Some ox\<rparr>" by blast
  from GetOwners_Inr[OF g2] obtain oy where
    oy: "oy \<noteq> {}" "r2 = Some oy" "y1 = y\<lparr>cl_owners := Some oy\<rparr>" by blast
  from assms g1 g2 ox(2) oy(2) have "common = ox \<inter> oy" "x' = x1" "y' = y1"
    by (simp_all add: GetCommonOwners_def)
  with ox oy show ?thesis by blast
qed

lemma GetCommonOwners_again:
  assumes "GetCommonOwners db a x y = Inr (common, x', y')"
  shows "GetCommonOwners db a x' y' = Inr (common, x', y')"
proof -
  from GetCommonOwners_Inr[OF assms] obtain ox oy where
    h0: "ox \<noteq> {}" "oy \<noteq> {}" "common = ox \<inter> oy" "x' = x\<lparr>cl_owners := Some ox\<rparr>"
        "y' = y\<lparr>cl_owners := Some oy\<rparr>"
    by blast
  then have h: "ox \<noteq> {}" "oy \<noteq> {}" "common = ox \<inter> oy" "cl_owners x' = Some ox"
      "cl_owners y' = Some oy"
    by simp_all
  show ?thesis
    by (simp add: GetCommonOwners_def GetOwners_memo[OF h(4,1)] GetOwners_memo[OF h(5,2)] h(3))
qed

lemma HaveCommonOwners_Inr:
  assumes "HaveCommonOwners db a x y = Inr (b, x', y')"
  shows "\<exists>common. GetCommonOwners db a x y = Inr (common, x', y') \<and> b = (common \<noteq> {})"
  using assms by (auto simp: HaveCommonOwners_def split: sum.splits prod.splits)

lemma Merge_after_HaveCommonOwners:
  assumes "HaveCommonOwners db a x y = Inr (b, x', y')"
  shows "\<exists>ox oy. ox \<noteq> {} \<and> oy \<noteq> {} \<and> b = (ox \<inter> oy \<noteq> {}) \<and>
            x' = x\<lparr>cl_owners := Some ox\<rparr> \<and> y' = y\<lparr>cl_owners := Some oy\<rparr> \<and>
            Merge db a x' y' =
              Inr (x\<lparr>cl_owners := Some (ox \<inter> oy), cl_files := cl_files x \<union> cl_files y\<rparr>, y')"
proof -
  from HaveCommonOwners_Inr[OF assms] obtain common where
    c: "GetCommonOwners db a x y = Inr (common, x', y')" "b = (common \<noteq> {})" by blast
  from GetCommonOwners_Inr[OF c(1)] obtain ox oy where
    h: "ox \<noteq> {}" "oy \<noteq> {}" "common = ox \<inter> oy" "x' = x\<lparr>cl_owners := Some ox\<rparr>"
       "y' = y\<lparr>cl_owners := Some oy\<rparr>"
    by blast
  have "Merge db a x' y' = Inr (x'\<lparr>cl_owners := Some common, cl_files := cl_files x' \<union> cl_files y'\<rparr>, y')"
    by (simp add: Merge_def GetCommonOwners_again[OF c(1)])
  then have "Merge db a x' y' =
              Inr (x\<lparr>cl_owners := Some (ox \<inter> oy), cl_files := cl_files x \<union> cl_files y\<rparr>, y')"
    by (simp add: h)
  with c(2) h show ?thesis by blast
qed

subsection \<open>The cases of one loop body\<close>

lemma merge_item_cases:
  assumes "merge_item db a (p, c) s = Inr s'"
  obtains (skip) "s' = s"
  | (reject) k pc ox oy where
      "trie_keys p (candidates s) = Inr [k]" "dirname p \<noteq> []"
      "trie_get (dirname p) (with_parent (dirname p) (candidates s)) = Inr pc"
      "HaveCommonOwners db a pc c = Inr (False, pc\<lparr>cl_owners := Some ox\<rparr>, c\<lparr>cl_owners := Some oy\<rparr>)"
      "ox \<noteq> {}" "oy \<noteq> {}" "ox \<inter> oy = {}"
      "s' = s\<lparr>candidates := trie_store p (c\<lparr>cl_owners := Some oy\<rparr>)
                (trie_store (dirname p) (pc\<lparr>cl_owners := Some ox\<rparr>)
                   (with_parent (dirname p) (candidates s)))\<rparr>"
  | (merge) k pc ox oy c3 where
      "trie_keys p (candidates s) = Inr [k]" "dirname p \<noteq> []"
      "trie_get (dirname p) (with_parent (dirname p) (candidates s)) = Inr pc"
      "HaveCommonOwners db a pc c = Inr (True, pc\<lparr>cl_owners := Some ox\<rparr>, c\<lparr>cl_owners := Some oy\<rparr>)"
      "ox \<noteq> {}" "oy \<noteq> {}" "ox \<inter> oy \<noteq> {}"
      "trie_del p (trie_store p (c\<lparr>cl_owners := Some oy\<rparr>)
                (trie_store (dirname p) (pc\<lparr>cl_owners := Some ox\<rparr>)
                   (with_parent (dirname p) (candidates s)))) = Inr c3"
      "\<not> GetChangeSizeInBytes (merged pc c (ox \<inter> oy)) > max_cl_size"
      "s' = \<lparr>candidates = trie_store (dirname p) (merged pc c (ox \<inter> oy)) c3,
             change_lists = change_lists s, edited = True\<rparr>"
  | (emit) k pc ox oy c3 c5 where
      "trie_keys p (candidates s) = Inr [k]" "dirname p \<noteq> []"
      "trie_get (dirname p) (with_parent (dirname p) (candidates s)) = Inr pc"
      "HaveCommonOwners db a pc c = Inr (True, pc\<lparr>cl_owners := Some ox\<rparr>, c\<lparr>cl_owners := Some oy\<rparr>)"
      "ox \<noteq> {}" "oy \<noteq> {}" "ox \<inter> oy \<noteq> {}"
      "trie_del p (trie_store p (c\<lparr>cl_owners := Some oy\<rparr>)
                (trie_store (dirname p) (pc\<lparr>cl_owners := Some ox\<rparr>)
                   (with_parent (dirname p) (candidates s)))) = Inr c3"
      "GetChangeSizeInBytes (merged pc c (ox \<inter> oy)) > max_cl_size"
      "trie_del (dirname p) (trie_store (dirname p) (merged pc c (ox \<inter> oy)) c3) = Inr c5"
      "s' = \<lparr>candidates = c5,
             change_lists = change_lists s @ [merged pc c (ox \<inter> oy)], edited = True\<rparr>"
proof -
  let ?t = "candidates s"
  let ?pp = "dirname p"
  let ?c1 = "with_parent ?pp ?t"
  from assms obtain ks where ks: "trie_keys p ?t = Inr ks"
    by (cases "trie_keys p ?t") (simp_all add: merge_item_def)
  show thesis
  proof (cases "int (length ks) - 1 \<noteq> 0 \<or> length ?pp < 1")
    case True
    with assms ks have "s' = s"
      by (auto simp: merge_item_def Let_def split: if_splits)
    then show thesis by (rule skip)
  next
    case False
    then have len: "int (length ks) - 1 = 0" "\<not> length ?pp < 1" by auto
    from len(1) obtain k where k: "ks = [k]"
      by (cases ks) auto
    from len(2) have ppne: "?pp \<noteq> []" by auto
    have e1: "merge_item db a (p, c) s =
      (case trie_get ?pp ?c1 of
                Inl e \<Rightarrow> Inl e
              | Inr parent_cl \<Rightarrow>
                  (case HaveCommonOwners db a parent_cl c of
                     Inl e \<Rightarrow> Inl e
                   | Inr (common, parent_cl1, candidate1) \<Rightarrow>
                       let c2 = trie_store p candidate1 (trie_store ?pp parent_cl1 ?c1) in
                       if \<not> common then Inr (s\<lparr>candidates := c2\<rparr>)
                       else
                         (case trie_del p c2 of
                            Inl e \<Rightarrow> Inl e
                          | Inr c3 \<Rightarrow>
                              (case Merge db a parent_cl1 candidate1 of
                                 Inl e \<Rightarrow> Inl e
                               | Inr (parent_cl2, candidate2) \<Rightarrow>
                                   let c4 = trie_store ?pp parent_cl2 c3 in
                                   if GetChangeSizeInBytes parent_cl2 > max_cl_size then
                                     (case trie_del ?pp c4 of
                                        Inl e \<Rightarrow> Inl e
                                      | Inr c5 \<Rightarrow>
                                          Inr \<lparr>candidates = c5,
                                               change_lists = change_lists s @ [parent_cl2],
                                               edited = True\<rparr>)
                                   else Inr \<lparr>candidates = c4,
                                            change_lists = change_lists s,
                                            edited = True\<rparr>))))"
      unfolding merge_item_def with_parent_def Let_def fst_conv snd_conv ks k
      using ppne by simp
    from assms e1 obtain pc where pc: "trie_get ?pp ?c1 = Inr pc"
      by (cases "trie_get ?pp ?c1") simp_all
    from assms e1 pc obtain r where r: "HaveCommonOwners db a pc c = Inr r"
      by (cases "HaveCommonOwners db a pc c") simp_all
    obtain b pc1 cand1 where r3: "r = (b, pc1, cand1)" by (cases r) auto
    from Merge_after_HaveCommonOwners[OF r[unfolded r3]] obtain ox oy where
      o: "ox \<noteq> {}" "oy \<noteq> {}" "b = (ox \<inter> oy \<noteq> {})"
         "pc1 = pc\<lparr>cl_owners := Some ox\<rparr>" "cand1 = c\<lparr>cl_owners := Some oy\<rparr>"
         "Merge db a pc1 cand1 = Inr (merged pc c (ox \<inter> oy), cand1)"
      unfolding merged_def by blast
    define c2 where "c2 = trie_store p cand1 (trie_store ?pp pc1 ?c1)"
    have e2: "Inr s' = (if \<not> b then Inr (s\<lparr>candidates := c2\<rparr>)
                       else
                         (case trie_del p c2 of
                            Inl e \<Rightarrow> Inl e
                          | Inr c3 \<Rightarrow>
                                   let c4 = trie_store ?pp (merged pc c (ox \<inter> oy)) c3 in
                                   if GetChangeSizeInBytes (merged pc c (ox \<inter> oy)) > max_cl_size then
                                     (case trie_del ?pp c4 of
                                        Inl e \<Rightarrow> Inl e
                                      | Inr c5 \<Rightarrow>
                                          Inr \<lparr>candidates = c5,
                                               change_lists = change_lists s @ [merged pc c (ox \<inter> oy)],
                                               edited = True\<rparr>)
                                   else Inr \<lparr>candidates = c4,
                                            change_lists = change_lists s,
                                            edited = True\<rparr>))"
      using assms unfolding e1 pc c2_def
      by (cases b; cases "trie_del p (trie_store p cand1 (trie_store (dirname p) pc1
                 (with_parent (dirname p) (candidates s))))")
         (simp_all add: r[unfolded r3] o(6) Let_def)
    note hc = r[unfolded r3 o(4,5)]
    show thesis
    proof (cases b)
      case False
      with e2 have "s' = s\<lparr>candidates := c2\<rparr>"
        by simp
      then have s': "s' = s\<lparr>candidates := trie_store p (c\<lparr>cl_owners := Some oy\<rparr>)
                (trie_store (dirname p) (pc\<lparr>cl_owners := Some ox\<rparr>)
                   (with_parent (dirname p) (candidates s)))\<rparr>"
        unfolding c2_def o(4,5) .
      from False o(3) have e: "ox \<inter> oy = {}" by simp
      from hc False have hcF: "HaveCommonOwners db a pc c =
          Inr (False, pc\<lparr>cl_owners := Some ox\<rparr>, c\<lparr>cl_owners := Some oy\<rparr>)" by simp
      show thesis
        by (rule reject[OF ks[unfolded k] ppne pc hcF o(1,2) e s'])
    next
      case True
      with e2 obtain c3 where c3: "trie_del p c2 = Inr c3"
        by (cases "trie_del p c2") simp_all
      note c3' = c3[unfolded c2_def o(4,5)]
      from True o(3) have ne: "ox \<inter> oy \<noteq> {}" by simp
      from hc True have hcT: "HaveCommonOwners db a pc c =
          Inr (True, pc\<lparr>cl_owners := Some ox\<rparr>, c\<lparr>cl_owners := Some oy\<rparr>)" by simp
      let ?m = "merged pc c (ox \<inter> oy)"
      show thesis
      proof (cases "GetChangeSizeInBytes ?m > max_cl_size")
        case False
        with e2 True c3 have s':
          "s' = \<lparr>candidates = trie_store ?pp ?m c3, change_lists = change_lists s, edited = True\<rparr>"
          by (simp add: Let_def)
        show thesis
          by (rule merge[OF ks[unfolded k] ppne pc hcT o(1,2) ne c3' False s'])
      next
        case big: True
        with e2 True c3 obtain c5 where
          c5: "trie_del ?pp (trie_store ?pp ?m c3) = Inr c5"
          by (cases "trie_del ?pp (trie_store ?pp ?m c3)") (simp_all add: Let_def)
        with e2 True c3 big have s':
          "s' = \<lparr>candidates = c5, change_lists = change_lists s @ [?m], edited = True\<rparr>"
          by (simp add: Let_def)
        show thesis
          by (rule emit[OF ks[unfolded k] ppne pc hcT o(1,2) ne c3' big c5 s'])
      qed
    qed
  qed
qed

subsection \<open>The merge loop terminates\<close>

lemma trie_contains_keys: "trie_contains k t \<longleftrightarrow> k \<in> set (map fst t)"
  by (simp add: trie_contains_def map_of_eq_None_iff)

lemma keys_with_parent: "set (map fst (with_parent pp t)) = insert pp (set (map fst t))"
  unfolding with_parent_def using trie_contains_keys[of pp t]
  by (simp add: keys_trie_set insert_absorb del: set_map)

lemma trie_keys_single:
  assumes "trie_keys p t = Inr [k]"
  shows "k \<in> set (map fst t)" "prefix p k" "\<And>k'. k' \<in> set (map fst t) \<Longrightarrow> prefix p k' \<Longrightarrow> k' = k"
proof -
  from assms have f: "filter (prefix p) (map fst t) = [k]"
    by (auto simp: trie_keys_def Let_def split: if_splits)
  then have "set (filter (prefix p) (map fst t)) = {k}" by simp
  then show "k \<in> set (map fst t)" "prefix p k"
    "\<And>k'. k' \<in> set (map fst t) \<Longrightarrow> prefix p k' \<Longrightarrow> k' = k"
    by auto
qed

lemma key_prefixes_mono:
  "set (map fst t') \<subseteq> set (map fst t) \<Longrightarrow> key_prefixes t' \<subseteq> key_prefixes t"
  unfolding key_prefixes_alt by blast

lemma key_prefixes_insert_prefix:
  assumes "set (map fst t') \<subseteq> insert pp (set (map fst t))" "k \<in> set (map fst t)" "prefix pp k"
  shows "key_prefixes t' \<subseteq> key_prefixes t"
  unfolding key_prefixes_alt using assms prefix_order.order_trans by blast

lemma not_in_key_prefixes:
  assumes keys': "set (map fst t') \<subseteq> insert (dirname p) (set (map fst t)) - {p}"
    and pin: "p \<in> set (map fst t)"
    and single: "\<And>k'. k' \<in> set (map fst t) \<Longrightarrow> prefix p k' \<Longrightarrow> k' = k"
  shows "p \<notin> key_prefixes t'"
proof
  assume "p \<in> key_prefixes t'"
  then obtain k' where k': "k' \<in> insert (dirname p) (set (map fst t)) - {p}" "prefix p k'"
    unfolding key_prefixes_alt using keys' by blast
  from single[OF pin] have pk: "p = k" by simp
  show False
  proof (cases "k' = dirname p")
    case True
    with k'(2) dirname_prefix[of p] have "p = dirname p" by (simp add: prefix_order.antisym)
    with True k'(1) show False by simp
  next
    case False
    with k'(1) have "k' \<in> set (map fst t)" by simp
    from single[OF this k'(2)] pk k'(1) show False by simp
  qed
qed

lemma merge_item_key_prefixes:
  assumes "merge_item db a (p, c) s = Inr s'"
  shows "key_prefixes (candidates s') \<subseteq> key_prefixes (candidates s)
      \<and> (edited s \<longrightarrow> edited s')
      \<and> (\<not> edited s' \<longrightarrow> set (map fst (candidates s)) \<subseteq> set (map fst (candidates s')))
      \<and> (\<not> edited s \<longrightarrow> edited s' \<longrightarrow> p \<in> set (map fst (candidates s)) \<longrightarrow>
            p \<in> key_prefixes (candidates s) \<and> p \<notin> key_prefixes (candidates s'))"
proof -
  let ?t = "candidates s" and ?pp = "dirname p"
  show ?thesis
    using assms
  proof (cases rule: merge_item_cases)
    case skip
    then show ?thesis by simp
  next
    case (reject k pc ox oy)
    note ks = trie_keys_single[OF reject(1)]
    have keys': "set (map fst (candidates s')) = insert ?pp (set (map fst ?t))"
      unfolding reject(8) by (simp add: keys_trie_store keys_with_parent del: set_map)
    moreover have "prefix ?pp k" using dirname_prefix[of p] ks(2) prefix_order.order_trans by blast
    ultimately have "key_prefixes (candidates s') \<subseteq> key_prefixes ?t"
      using key_prefixes_insert_prefix[of "candidates s'" ?pp ?t k] ks(1) by simp
    moreover have "edited s' = edited s" unfolding reject(8) by simp
    ultimately show ?thesis using keys' by auto
  next
    case (merge k pc ox oy c3)
    note ks = trie_keys_single[OF merge(1)]
    from keys_trie_del[OF merge(8)] have
      d: "set (map fst c3) = insert ?pp (set (map fst ?t)) - {p}"
      by (simp_all add: keys_trie_store keys_with_parent del: set_map)
    have pk: "prefix ?pp k" using dirname_prefix[of p] ks(2) prefix_order.order_trans by blast
    have keys': "set (map fst (candidates s')) = insert ?pp (set (map fst ?t)) - {p}"
      unfolding merge(10) using d by (simp add: keys_trie_store del: set_map)
    have sub: "key_prefixes (candidates s') \<subseteq> key_prefixes ?t"
      using key_prefixes_insert_prefix[of "candidates s'" ?pp ?t k] ks(1) pk keys' by auto
    have ed: "edited s'" unfolding merge(10) by simp
    have "p \<in> key_prefixes ?t \<and> p \<notin> key_prefixes (candidates s')" if pin: "p \<in> set (map fst ?t)"
    proof
      show "p \<in> key_prefixes ?t" unfolding key_prefixes_alt using pin by auto
      show "p \<notin> key_prefixes (candidates s')"
        using not_in_key_prefixes[of "candidates s'" p ?t k] keys' pin ks(3) by blast
    qed
    with sub ed show ?thesis by simp
  next
    case (emit k pc ox oy c3 c5)
    note ks = trie_keys_single[OF emit(1)]
    from keys_trie_del[OF emit(8)] have
      d: "set (map fst c3) = insert ?pp (set (map fst ?t)) - {p}"
      by (simp_all add: keys_trie_store keys_with_parent del: set_map)
    from keys_trie_del[OF emit(10)] have d5: "set (map fst c5) = set (map fst c3) - {?pp}"
      by (simp_all add: keys_trie_store del: set_map)
    have pk: "prefix ?pp k" using dirname_prefix[of p] ks(2) prefix_order.order_trans by blast
    have keys': "set (map fst (candidates s')) \<subseteq> insert ?pp (set (map fst ?t)) - {p}"
      unfolding emit(11) using d d5 by auto
    have sub: "key_prefixes (candidates s') \<subseteq> key_prefixes ?t"
      using key_prefixes_insert_prefix[of "candidates s'" ?pp ?t k] ks(1) pk keys' by auto
    have ed: "edited s'" unfolding emit(11) by simp
    have "p \<in> key_prefixes ?t \<and> p \<notin> key_prefixes (candidates s')" if pin: "p \<in> set (map fst ?t)"
    proof
      show "p \<in> key_prefixes ?t" unfolding key_prefixes_alt using pin by auto
      show "p \<notin> key_prefixes (candidates s')"
        using not_in_key_prefixes[of "candidates s'" p ?t k] keys' pin ks(3) by blast
    qed
    with sub ed show ?thesis by simp
  qed
qed

lemma merge_items_key_prefixes:
  assumes "merge_items db a items s = Inr s'"
  shows "key_prefixes (candidates s') \<subseteq> key_prefixes (candidates s)
      \<and> (edited s \<longrightarrow> edited s')
      \<and> (\<not> edited s \<longrightarrow> edited s' \<longrightarrow> set (map fst items) \<subseteq> set (map fst (candidates s)) \<longrightarrow>
            key_prefixes (candidates s') \<subset> key_prefixes (candidates s))"
  using assms
proof (induction items arbitrary: s)
  case Nil
  then show ?case by simp
next
  case (Cons item items)
  obtain p c where item: "item = (p, c)" by (cases item) auto
  from Cons.prems obtain s1 where s1: "merge_item db a (p, c) s = Inr s1"
    and rest: "merge_items db a items s1 = Inr s'"
    unfolding item by (cases "merge_item db a (p, c) s") simp_all
  note st = merge_item_key_prefixes[OF s1]
  note ih = Cons.IH[OF rest]
  have 1: "key_prefixes (candidates s') \<subseteq> key_prefixes (candidates s)" using st ih by blast
  have 2: "edited s \<longrightarrow> edited s'" using st ih by blast
  have 3: "key_prefixes (candidates s') \<subset> key_prefixes (candidates s)"
    if h: "\<not> edited s" "edited s'" "set (map fst (item # items)) \<subseteq> set (map fst (candidates s))"
  proof (cases "edited s1")
    case True
    from h(3) have "p \<in> set (map fst (candidates s))" unfolding item by simp
    with st h(1) True have "p \<in> key_prefixes (candidates s)" "p \<notin> key_prefixes (candidates s1)"
      by blast+
    moreover have "key_prefixes (candidates s1) \<subseteq> key_prefixes (candidates s)" using st by blast
    ultimately have "key_prefixes (candidates s1) \<subset> key_prefixes (candidates s)" by blast
    with ih show ?thesis by blast
  next
    case False
    with st have "set (map fst (candidates s)) \<subseteq> set (map fst (candidates s1))" by blast
    moreover from h(3) have "set (map fst items) \<subseteq> set (map fst (candidates s))"
      by (simp del: set_map)
    ultimately have "set (map fst items) \<subseteq> set (map fst (candidates s1))" by blast
    with ih False h(2) have "key_prefixes (candidates s') \<subset> key_prefixes (candidates s1)" by blast
    moreover have "key_prefixes (candidates s1) \<subseteq> key_prefixes (candidates s)" using st by blast
    ultimately show ?thesis by blast
  qed
  from 1 2 3 show ?case by blast
qed

lemma merge_pass_decreases:
  assumes "merge_pass db a s = Inr s'" "edited s'"
  shows "card (key_prefixes (candidates s')) < card (key_prefixes (candidates s))"
proof -
  from merge_items_key_prefixes[OF assms(1)[unfolded merge_pass_def]] assms(2)
  have "key_prefixes (candidates s') \<subset> key_prefixes (candidates s)"
    by (simp add: trie_items_def)
  then show ?thesis by (simp add: psubset_card_mono finite_key_prefixes)
qed

termination merge_loop
proof (relation "measure (\<lambda>(db, author, s). card (key_prefixes (candidates s)))")
  show "wf (measure (\<lambda>(db, author, s). card (key_prefixes (candidates s))))" by simp
next
  fix db author s s'
  assume "merge_pass db author s = Inr s'" "edited s'"
  then show "((db, author, s'), (db, author, s))
      \<in> measure (\<lambda>(db, author, s). card (key_prefixes (candidates s)))"
    by (simp add: merge_pass_decreases)
qed

declare merge_loop.simps [simp del]

subsection \<open>Units emitted inside the loop\<close>

lemma merge_item_change_lists:
  assumes "merge_item db a item s = Inr s'"
  shows "\<exists>new. change_lists s' = change_lists s @ new \<and> list_all emitted_in_loop new"
proof -
  obtain p c where item: "item = (p, c)" by (cases item) auto
  from assms[unfolded item] show ?thesis
  proof (cases rule: merge_item_cases)
    case skip
    then show ?thesis by simp
  next
    case (reject k pc ox oy)
    then show ?thesis by simp
  next
    case (merge k pc ox oy c3)
    then show ?thesis by simp
  next
    case (emit k pc ox oy c3 c5)
    have "emitted_in_loop (merged pc c (ox \<inter> oy))"
      using emit(7,9) by (simp add: emitted_in_loop_def merged_def)
    then show ?thesis unfolding emit(11) by simp
  qed
qed

lemma merge_items_change_lists:
  assumes "merge_items db a items s = Inr s'"
  shows "\<exists>new. change_lists s' = change_lists s @ new \<and> list_all emitted_in_loop new"
  using assms
proof (induction items arbitrary: s)
  case Nil
  then show ?case by simp
next
  case (Cons item items)
  from Cons.prems obtain s1 where s1: "merge_item db a item s = Inr s1"
    and rest: "merge_items db a items s1 = Inr s'"
    by (cases "merge_item db a item s") simp_all
  from merge_item_change_lists[OF s1] obtain n1 where
    n1: "change_lists s1 = change_lists s @ n1" "list_all emitted_in_loop n1" by blast
  from Cons.IH[OF rest] obtain n2 where
    n2: "change_lists s' = change_lists s1 @ n2" "list_all emitted_in_loop n2" by blast
  from n1 n2 have "change_lists s' = change_lists s @ (n1 @ n2)" "list_all emitted_in_loop (n1 @ n2)"
    by simp_all
  then show ?case by blast
qed

lemma merge_pass_change_lists:
  assumes "merge_pass db a s = Inr s'"
  shows "\<exists>new. change_lists s' = change_lists s @ new \<and> list_all emitted_in_loop new"
  using merge_items_change_lists[OF assms[unfolded merge_pass_def]] by simp

lemma merge_loop_change_lists:
  assumes "merge_loop db a s = Inr s'"
  shows "\<exists>new. change_lists s' = change_lists s @ new \<and> list_all emitted_in_loop new"
  using assms
proof (induction db a s rule: merge_loop.induct)
  case (1 db author s)
  from "1.prems" obtain s1 where s1: "merge_pass db author s = Inr s1"
    by (cases "merge_pass db author s") (simp_all add: merge_loop.simps[of db author s])
  from merge_pass_change_lists[OF s1] obtain n1 where
    n1: "change_lists s1 = change_lists s @ n1" "list_all emitted_in_loop n1" by blast
  show ?case
  proof (cases "edited s1")
    case True
    with "1.prems" s1 have "merge_loop db author s1 = Inr s'"
      by (simp add: merge_loop.simps[of db author s])
    from "1.IH"[OF s1 True this] obtain n2 where
      n2: "change_lists s' = change_lists s1 @ n2" "list_all emitted_in_loop n2" by blast
    from n1 n2 have "change_lists s' = change_lists s @ (n1 @ n2)" "list_all emitted_in_loop (n1 @ n2)"
      by simp_all
    then show ?thesis by blast
  next
    case False
    with "1.prems" s1 have "s' = s1"
      by (simp add: merge_loop.simps[of db author s])
    with n1 show ?thesis by blast
  qed
qed

lemma merge_loop_not_edited:
  assumes "merge_loop db a s = Inr s'"
  shows "\<not> edited s'"
  using assms
proof (induction db a s rule: merge_loop.induct)
  case (1 db author s)
  from "1.prems" obtain s1 where s1: "merge_pass db author s = Inr s1"
    by (cases "merge_pass db author s") (simp_all add: merge_loop.simps[of db author s])
  show ?case
  proof (cases "edited s1")
    case True
    with "1.prems" s1 have "merge_loop db author s1 = Inr s'"
      by (simp add: merge_loop.simps[of db author s])
    from "1.IH"[OF s1 True this] show ?thesis .
  next
    case False
    with "1.prems" s1 have "s' = s1"
      by (simp add: merge_loop.simps[of db author s])
    with False show ?thesis by simp
  qed
qed

lemma SplitCLs_Inr:
  assumes "SplitCLs db author files = Inr units"
  obtains s where
    "merge_loop db author \<lparr>candidates = seed files [], change_lists = [], edited = True\<rparr> = Inr s"
    "units = change_lists s @ map snd (trie_items (candidates s))"
  using assms unfolding SplitCLs_def
  by (cases "merge_loop db author \<lparr>candidates = seed files [], change_lists = [], edited = True\<rparr>")
     auto

subsection \<open>Seeding\<close>

lemma trie_set_twice: "trie_set k v' (trie_set k v t) = trie_set k v' t"
  by (induction t) auto

lemma seed_duplicate:
  "LocalPath f = LocalPath g \<Longrightarrow> seed (f # g # fs) t = seed (g # fs) t"
  by (simp add: trie_set_twice)

lemma merge_item_empty_path:
  "merge_item db a ([], c) \<lparr>candidates = [([], c')], change_lists = cls, edited = e\<rparr> =
     Inr \<lparr>candidates = [([], c')], change_lists = cls, edited = e\<rparr>"
  by (simp add: merge_item_def trie_keys_def dirname_def)

subsection \<open>Passes and entries\<close>

lemma merge_loop_bounded_enough:
  "card (key_prefixes (candidates s)) < n \<Longrightarrow>
     merge_loop_bounded n db author s = Some (merge_loop db author s)"
proof (induction n arbitrary: s)
  case 0
  then show ?case by simp
next
  case (Suc n)
  note ml = merge_loop.simps[of db author s]
  show ?case
  proof (cases "merge_pass db author s")
    case (Inl e)
    then show ?thesis by (simp add: ml del: merge_loop.simps)
  next
    case (Inr s')
    show ?thesis
    proof (cases "edited s'")
      case True
      from merge_pass_decreases[OF Inr True] Suc.prems
      have "card (key_prefixes (candidates s')) < n" by simp
      from Suc.IH[OF this] Inr True show ?thesis by (simp add: ml del: merge_loop.simps)
    next
      case False
      with Inr show ?thesis by (simp add: ml del: merge_loop.simps)
    qed
  qed
qed


lemma length_trie_set: "length (trie_set k v t) \<le> Suc (length t)"
  by (induction t) auto

lemma length_trie_store: "length (trie_store k v t) = length t"
  by (simp add: trie_store_def)

lemma length_trie_del:
  assumes a: "trie_del k t = Inr t'"
  shows "length t' < length t"
proof -
  from keys_trie_del[OF a] have k: "k \<in> set (map fst t)" by blast
  from a have t': "t' = filter (\<lambda>kv. fst kv \<noteq> k) t"
    by (simp add: trie_del_def split: if_splits)
  from k obtain kv where kv: "kv \<in> set t" "fst kv = k" by auto
  have "length (filter (\<lambda>kv. fst kv \<noteq> k) t) < length t"
    by (rule length_filter_less[OF kv(1)]) (simp add: kv(2))
  then show ?thesis unfolding t' .
qed

lemma length_with_parent: "length (with_parent pp t) \<le> Suc (length t)"
  using length_trie_set[of pp _ t] by (simp add: with_parent_def)

lemma merge_item_length:
  assumes "merge_item db a (p, c) s = Inr s'" "\<not> edited s" "edited s'"
  shows "length (candidates s') \<le> length (candidates s)"
  using assms(1)
proof (cases rule: merge_item_cases)
  case skip
  with assms show ?thesis by simp
next
  case (reject k pc ox oy)
  from assms(2,3) show ?thesis unfolding reject(8) by simp
next
  case (merge k pc ox oy c3)
  from length_trie_del[OF merge(8)]
  have "length c3 < length (with_parent (dirname p) (candidates s))"
    by (simp only: length_trie_store)
  with length_with_parent[of "dirname p" "candidates s"]
  have "length c3 \<le> length (candidates s)" by linarith
  then show ?thesis unfolding merge(10) by (simp add: length_trie_store)
next
  case (emit k pc ox oy c3 c5)
  from length_trie_del[OF emit(8)]
  have "length c3 < length (with_parent (dirname p) (candidates s))"
    by (simp only: length_trie_store)
  with length_with_parent[of "dirname p" "candidates s"]
  have 1: "length c3 \<le> length (candidates s)" by linarith
  from length_trie_del[OF emit(10)] have "length c5 < length c3"
    by (simp only: length_trie_store)
  with 1 show ?thesis unfolding emit(11) by simp
qed

subsection \<open>Approver sets, resolved\<close>

lemma EnsureOwners_current:
  "EnsureOwners db author cl =
     (if current_owners db author cl = {} then Inl AssertionError
      else Inr (cl\<lparr>cl_owners := Some (current_owners db author cl)\<rparr>))"
proof (cases "cl_owners cl")
  case None
  then show ?thesis
    by (simp add: EnsureOwners_def current_owners_def oracle_owners_def Let_def)
next
  case (Some os)
  show ?thesis
  proof (cases "os = {}")
    case True
    with Some show ?thesis
      by (simp add: EnsureOwners_def current_owners_def oracle_owners_def Let_def)
  next
    case False
    with Some have "cl\<lparr>cl_owners := Some os\<rparr> = cl" by simp
    with Some False show ?thesis
      by (simp add: EnsureOwners_def current_owners_def)
  qed
qed

lemma GetOwners_current:
  "GetOwners db author cl =
     (if current_owners db author cl = {} then Inl AssertionError
      else Inr (Some (current_owners db author cl),
                cl\<lparr>cl_owners := Some (current_owners db author cl)\<rparr>))"
  by (simp add: GetOwners_def EnsureOwners_current)

lemma GetCommonOwners_current:
  "GetCommonOwners db author self other =
     (if current_owners db author self = {} \<or> current_owners db author other = {}
      then Inl AssertionError
      else Inr (current_owners db author self \<inter> current_owners db author other,
                self\<lparr>cl_owners := Some (current_owners db author self)\<rparr>,
                other\<lparr>cl_owners := Some (current_owners db author other)\<rparr>))"
  by (simp add: GetCommonOwners_def GetOwners_current)


lemma Merge_current:
  "Merge db author self other =
     (if current_owners db author self = {} \<or> current_owners db author other = {}
      then Inl AssertionError
      else Inr (self\<lparr>cl_owners := Some (current_owners db author self
                                            \<inter> current_owners db author other),
                     cl_files := cl_files self \<union> cl_files other\<rparr>,
                other\<lparr>cl_owners := Some (current_owners db author other)\<rparr>))"
  by (simp add: Merge_def GetCommonOwners_current)


lemma set_trie_set: "set (trie_set k v t) \<subseteq> insert (k, v) (set t)"
  by (induction t) (auto split: if_splits)

lemma set_trie_store: "set (trie_store k v t) \<subseteq> insert (k, v) (set t)"
  by (auto simp: trie_store_def)

lemma set_trie_del: "trie_del k t = Inr t' \<Longrightarrow> set t' \<subseteq> set t"
  by (auto simp: trie_del_def split: if_splits)

lemma set_with_parent: "set (with_parent pp t) \<subseteq> insert (pp, new_ChangeList pp {}) (set t)"
  using set_trie_set[of pp "new_ChangeList pp {}" t] by (auto simp: with_parent_def)


lemma merge_item_owners:
  assumes "merge_item db a (p, c) s = Inr s'"
    and inv: "list_all owners_resolved_or_unset (map snd (candidates s))"
  shows "list_all owners_resolved_or_unset (map snd (candidates s'))"
proof -
  let ?P = "owners_resolved_or_unset"
  have inv': "\<And>k v. (k, v) \<in> set (candidates s) \<Longrightarrow> ?P v"
    using inv by (auto simp: list_all_iff)
  have new: "?P (new_ChangeList pp {})" for pp
    by (simp add: owners_resolved_or_unset_def new_ChangeList_def)
  have wp: "\<And>k v. (k, v) \<in> set (with_parent (dirname p) (candidates s)) \<Longrightarrow> ?P v"
    using set_with_parent[of "dirname p" "candidates s"] inv' new by blast
  have goal: "(\<And>k v. (k, v) \<in> set t \<Longrightarrow> ?P v) \<Longrightarrow> list_all ?P (map snd t)" for t
    by (auto simp: list_all_iff)
  from assms(1) show ?thesis
  proof (cases rule: merge_item_cases)
    case skip
    with inv show ?thesis by simp
  next
    case (reject k pc ox oy)
    have a: "?P (pc\<lparr>cl_owners := Some ox\<rparr>)" "?P (c\<lparr>cl_owners := Some oy\<rparr>)"
      using reject(5,6) by (simp_all add: owners_resolved_or_unset_def)
    have "\<And>k v. (k, v) \<in> set (candidates s') \<Longrightarrow> ?P v"
      unfolding reject(8) using set_trie_store wp a by (simp, blast)
    then show ?thesis by (rule goal)
  next
    case (merge k pc ox oy c3)
    have a: "?P (pc\<lparr>cl_owners := Some ox\<rparr>)" "?P (c\<lparr>cl_owners := Some oy\<rparr>)"
      "?P (merged pc c (ox \<inter> oy))"
      using merge(5,6,7) by (simp_all add: owners_resolved_or_unset_def merged_def)
    have c3: "\<And>k v. (k, v) \<in> set c3 \<Longrightarrow> ?P v"
      using set_trie_del[OF merge(8)] set_trie_store wp a by blast
    have "\<And>k v. (k, v) \<in> set (candidates s') \<Longrightarrow> ?P v"
      unfolding merge(10) using set_trie_store c3 a by (simp, blast)
    then show ?thesis by (rule goal)
  next
    case (emit k pc ox oy c3 c5)
    have a: "?P (pc\<lparr>cl_owners := Some ox\<rparr>)" "?P (c\<lparr>cl_owners := Some oy\<rparr>)"
      "?P (merged pc c (ox \<inter> oy))"
      using emit(5,6,7) by (simp_all add: owners_resolved_or_unset_def merged_def)
    have c3: "\<And>k v. (k, v) \<in> set c3 \<Longrightarrow> ?P v"
      using set_trie_del[OF emit(8)] set_trie_store wp a by blast
    have "\<And>k v. (k, v) \<in> set c5 \<Longrightarrow> ?P v"
      using set_trie_del[OF emit(10)] set_trie_store c3 a by blast
    then have "\<And>k v. (k, v) \<in> set (candidates s') \<Longrightarrow> ?P v"
      unfolding emit(11) by simp
    then show ?thesis by (rule goal)
  qed
qed

lemma merge_items_owners:
  assumes "merge_items db a items s = Inr s'"
    and "list_all owners_resolved_or_unset (map snd (candidates s))"
  shows "list_all owners_resolved_or_unset (map snd (candidates s'))"
  using assms
proof (induction items arbitrary: s)
  case Nil
  then show ?case by simp
next
  case (Cons item items)
  obtain p c where item: "item = (p, c)" by (cases item) auto
  from Cons.prems(1) obtain s1 where s1: "merge_item db a (p, c) s = Inr s1"
    and rest: "merge_items db a items s1 = Inr s'"
    unfolding item by (cases "merge_item db a (p, c) s") simp_all
  from Cons.IH[OF rest merge_item_owners[OF s1 Cons.prems(2)]] show ?case .
qed

lemma merge_loop_owners:
  assumes "merge_loop db a s = Inr s'"
    and "list_all owners_resolved_or_unset (map snd (candidates s))"
  shows "list_all owners_resolved_or_unset (map snd (candidates s'))"
  using assms
proof (induction db a s rule: merge_loop.induct)
  case (1 db author s)
  from "1.prems"(1) obtain s1 where s1: "merge_pass db author s = Inr s1"
    by (cases "merge_pass db author s") (simp_all add: merge_loop.simps[of db author s])
  from s1 have "merge_items db author (candidates s) (s\<lparr>edited := False\<rparr>) = Inr s1"
    by (simp add: merge_pass_def trie_items_def)
  from merge_items_owners[OF this] "1.prems"(2)
  have inv1: "list_all owners_resolved_or_unset (map snd (candidates s1))" by simp
  show ?case
  proof (cases "edited s1")
    case True
    with "1.prems"(1) s1 have "merge_loop db author s1 = Inr s'"
      by (simp add: merge_loop.simps[of db author s])
    from "1.IH"[OF s1 True this inv1] show ?thesis .
  next
    case False
    with "1.prems"(1) s1 have "s' = s1"
      by (simp add: merge_loop.simps[of db author s])
    with inv1 show ?thesis by simp
  qed
qed

lemma seed_owners:
  "list_all owners_resolved_or_unset (map snd t) \<Longrightarrow>
   list_all owners_resolved_or_unset (map snd (seed fs t))"
proof (induction fs arbitrary: t)
  case Nil
  then show ?case by simp
next
  case (Cons f fs)
  have "list_all owners_resolved_or_unset
          (map snd (trie_set (LocalPath f) (new_ChangeList (LocalPath f) {f}) t))"
    using set_trie_set[of "LocalPath f" "new_ChangeList (LocalPath f) {f}" t] Cons.prems
    by (auto simp: list_all_iff owners_resolved_or_unset_def new_ChangeList_def)
  from Cons.IH[OF this] show ?case by simp
qed

subsection \<open>Errors end the run\<close>

lemma merge_item_abort:
  assumes "trie_keys p (candidates s) = Inr [k]" "dirname p \<noteq> []"
    and "trie_get (dirname p) (with_parent (dirname p) (candidates s)) = Inr pc"
    and "current_owners db a pc = {} \<or> current_owners db a c = {}"
  shows "merge_item db a (p, c) s = Inl AssertionError"
proof -
  have l: "\<not> length (dirname p) < 1" using assms(2) by simp
  have z: "\<not> int (length [k]) - 1 \<noteq> 0" by simp
  have h: "HaveCommonOwners db a pc c = Inl AssertionError"
    using assms(4) by (simp add: HaveCommonOwners_def GetCommonOwners_current)
  show ?thesis
    unfolding merge_item_def Let_def fst_conv snd_conv with_parent_def[symmetric]
    by (simp only: assms(1,3) h sum.case prod.case if_True if_False l z not_True_eq_False)
qed

lemma merge_items_abort:
  "merge_items db a items0 s = Inr s1 \<Longrightarrow> merge_item db a item s1 = Inl e \<Longrightarrow>
   merge_items db a (items0 @ item # rest) s = Inl e"
proof (induction items0 arbitrary: s)
  case Nil
  then show ?case by simp
next
  case (Cons i items0)
  from Cons.prems(1) obtain s2 where s2: "merge_item db a i s = Inr s2"
    and r: "merge_items db a items0 s2 = Inr s1"
    by (cases "merge_item db a i s") simp_all
  from Cons.IH[OF r Cons.prems(2)] s2 show ?case by simp
qed

lemma merge_loop_abort: "merge_pass db a s = Inl e \<Longrightarrow> merge_loop db a s = Inl e"
  by (subst merge_loop.simps) simp

lemma merge_loop_next:
  "merge_pass db a s = Inr s' \<Longrightarrow> edited s' \<Longrightarrow> merge_loop db a s = merge_loop db a s'"
  by (subst merge_loop.simps) simp

lemma SplitCLs_abort:
  "merge_loop db a \<lparr>candidates = seed files [], change_lists = [], edited = True\<rparr> = Inl e \<Longrightarrow>
   SplitCLs db a files = Inl e"
  by (simp add: SplitCLs_def)

lemma map_of_trie_set_same: "map_of (trie_set k v t) k = Some v"
  by (induction t) auto

lemma trie_get_with_parent_new:
  "\<not> trie_contains pp t \<Longrightarrow> trie_get pp (with_parent pp t) = Inr (new_ChangeList pp {})"
  by (simp add: with_parent_def trie_get_def map_of_trie_set_same)

lemma single_file_abort:
  assumes d: "dirname p = pp" and pp: "pp \<noteq> []" "pp \<noteq> p"
    and e: "oracle_owners db a (new_ChangeList pp {}) = {} \<or> oracle_owners db a c = {}"
    and c: "cl_owners c = None"
  shows "merge_loop db a \<lparr>candidates = [(p, c)], change_lists = [], edited = True\<rparr>
           = Inl AssertionError"
proof -
  let ?s0 = "\<lparr>candidates = [(p, c)], change_lists = [], edited = False\<rparr>"
  have nc: "\<not> trie_contains pp (candidates ?s0)"
    using pp(2) by (simp add: trie_contains_def)
  have cur: "current_owners db a (new_ChangeList pp {}) = {} \<or> current_owners db a c = {}"
    using e c by (simp add: current_owners_def new_ChangeList_def)
  have "merge_item db a (p, c) ?s0 = Inl AssertionError"
  proof (rule merge_item_abort[where k=p and pc="new_ChangeList pp {}"])
    show "trie_keys p (candidates ?s0) = Inr [p]" by (simp add: trie_keys_def)
    show "dirname p \<noteq> []" unfolding d by (rule pp(1))
    show "trie_get (dirname p) (with_parent (dirname p) (candidates ?s0)) = Inr (new_ChangeList pp {})"
      unfolding d by (rule trie_get_with_parent_new[OF nc])
    show "current_owners db a (new_ChangeList pp {}) = {} \<or> current_owners db a c = {}"
      by (rule cur)
  qed
  then have "merge_pass db a \<lparr>candidates = [(p, c)], change_lists = [], edited = True\<rparr>
               = Inl AssertionError"
    by (simp add: merge_pass_def trie_items_def)
  then show ?thesis by (rule merge_loop_abort)
qed

lemma SplitCLs_single_file_abort:
  assumes "dirname (LocalPath f) \<noteq> []" "dirname (LocalPath f) \<noteq> LocalPath f"
    and "oracle_owners db a (new_ChangeList (dirname (LocalPath f)) {}) = {}
         \<or> oracle_owners db a (new_ChangeList (LocalPath f) {f}) = {}"
  shows "SplitCLs db a [f] = Inl AssertionError"
proof -
  obtain p where p: "LocalPath f = p" by simp
  obtain pp where d: "dirname p = pp" by simp
  note a = assms[unfolded p d]
  have c: "cl_owners (new_ChangeList p {f}) = None" by (simp add: new_ChangeList_def)
  from single_file_abort[OF d a(1) a(2) a(3) c]
  show ?thesis by (simp add: SplitCLs_def p)
qed

subsection \<open>Seeding depends on the last file of each path only\<close>

lemma map_of_trie_set: "map_of (trie_set k v t) = (map_of t)(k \<mapsto> v)"
  by (induction t) (auto simp: fun_eq_iff)

lemma sorted_trie_set: "sorted_trie t \<Longrightarrow> sorted_trie (trie_set k v t)"
proof (induction t)
  case Nil
  then show ?case by (simp add: sorted_trie_def)
next
  case (Cons kv t)
  obtain k' v' where kv: "kv = (k', v')" by (cases kv) auto
  from Cons.prems have st: "sorted_trie t" and lt: "\<forall>x \<in> set (map fst t). k' < x"
    by (auto simp: sorted_trie_def kv)
  show ?case
  proof (cases "k = k'")
    case True
    with Cons.prems show ?thesis by (simp add: kv sorted_trie_def)
  next
    case False
    show ?thesis
    proof (cases "k < k'")
      case True
      with Cons.prems False show ?thesis
        by (auto simp: kv sorted_trie_def)
    next
      case nl: False
      with False have "k' < k" by simp
      moreover from Cons.IH[OF st] have "sorted_trie (trie_set k v t)" .
      ultimately show ?thesis
        using False nl lt keys_trie_set[of k v t]
        by (auto simp: kv sorted_trie_def simp del: set_map)
    qed
  qed
qed

lemma sorted_trie_distinct: "sorted_trie t \<Longrightarrow> distinct (map fst t)"
  unfolding sorted_trie_def by (simp add: strict_sorted_iff)

lemma sorted_trie_sorted: "sorted_trie t \<Longrightarrow> sorted (map fst t)"
  unfolding sorted_trie_def by (simp add: strict_sorted_iff)

lemma sorted_trie_unique:
  assumes "sorted_trie t" "sorted_trie t'" "map_of t = map_of t'"
  shows "t = t'"
proof -
  note d = sorted_trie_distinct[OF assms(1)] sorted_trie_distinct[OF assms(2)]
  from assms(3) d have s: "set t = set t'" by (simp add: map_of_inject_set)
  have "inj_on fst (set t)" using d(1) by (simp add: distinct_map)
  then have "inj_on fst (set t \<union> set t')" using s by simp
  from map_sorted_distinct_set_unique[OF this sorted_trie_sorted[OF assms(1)] d(1)
      sorted_trie_sorted[OF assms(2)] d(2) s]
  show ?thesis .
qed

lemma sorted_seed: "sorted_trie t \<Longrightarrow> sorted_trie (seed fs t)"
  by (induction fs arbitrary: t) (simp_all add: sorted_trie_set)

lemma seed_Cons: "seed (f # fs) t = seed fs (trie_set (LocalPath f) (new_ChangeList (LocalPath f) {f}) t)"
  by simp

lemma map_of_trie_set_Nil: "map_of (trie_set k v []) = [k \<mapsto> v]"
  by (simp only: map_of_trie_set map_of.simps)

lemma map_of_seed: "map_of (seed fs t) = map_of t ++ map_of (seed fs [])"
proof (induction fs arbitrary: t)
  case Nil
  then show ?case by simp
next
  case (Cons f fs)
  let ?k = "LocalPath f" and ?v = "new_ChangeList (LocalPath f) {f}"
  have a: "map_of (seed (f # fs) t) = (map_of t)(?k \<mapsto> ?v) ++ map_of (seed fs [])"
    by (simp only: seed_Cons Cons.IH[of "trie_set ?k ?v t"] map_of_trie_set)
  have b: "map_of (seed (f # fs) []) = [?k \<mapsto> ?v] ++ map_of (seed fs [])"
    by (simp only: seed_Cons Cons.IH[of "trie_set ?k ?v []"] map_of_trie_set_Nil)
  have c: "(map_of t)(?k \<mapsto> ?v) = map_of t ++ [?k \<mapsto> ?v]"
    by simp
  show ?case unfolding a b c by (simp only: map_add_assoc)
qed

lemma map_of_seed_Cons:
  "map_of (seed (f # fs) []) =
     [LocalPath f \<mapsto> new_ChangeList (LocalPath f) {f}] ++ map_of (seed fs [])"
  by (simp only: seed_Cons map_of_seed[of fs "trie_set (LocalPath f) (new_ChangeList (LocalPath f) {f}) []"]
        map_of_trie_set_Nil)

lemma dom_map_of_seed: "dom (map_of (seed fs [])) = LocalPath ` set fs"
proof (induction fs)
  case Nil
  then show ?case by simp
next
  case (Cons f fs)
  have "dom (map_of (seed (f # fs) [])) = insert (LocalPath f) (dom (map_of (seed fs [])))"
    unfolding map_of_seed_Cons by auto
  with Cons.IH show ?case by simp
qed

lemma sorted_trie_Nil: "sorted_trie []"
  by (simp add: sorted_trie_def)

lemma seed_unique:
  "map_of (seed fs []) = map_of (seed gs []) \<Longrightarrow> seed fs [] = seed gs []"
  by (rule sorted_trie_unique) (simp_all add: sorted_seed sorted_trie_Nil)

lemma seed_overwritten:
  assumes "LocalPath f \<in> LocalPath ` set fs"
  shows "seed (f # fs) [] = seed fs []"
proof (rule seed_unique)
  from assms have "LocalPath f \<in> dom (map_of (seed fs []))" by (simp add: dom_map_of_seed)
  then show "map_of (seed (f # fs) []) = map_of (seed fs [])"
    unfolding map_of_seed_Cons by (auto simp: map_add_def fun_eq_iff split: option.splits)
qed

lemma set_last_per_path: "LocalPath ` set (last_per_path fs) = LocalPath ` set fs"
  by (induction fs) auto

lemma seed_last_per_path: "seed (last_per_path fs) [] = seed fs []"
proof (induction fs)
  case Nil
  then show ?case by simp
next
  case (Cons f fs)
  show ?case
  proof (cases "LocalPath f \<in> LocalPath ` set fs")
    case True
    with Cons.IH seed_overwritten[OF True] show ?thesis by simp
  next
    case False
    have "seed (f # last_per_path fs) [] = seed (f # fs) []"
      by (rule seed_unique) (simp only: map_of_seed_Cons Cons.IH)
    with False show ?thesis by simp
  qed
qed

lemma SplitCLs_last_per_path: "SplitCLs db a fs = SplitCLs db a (last_per_path fs)"
  by (simp add: SplitCLs_def seed_last_per_path)

subsection \<open>A candidate at the empty path is left alone\<close>

lemma trie_keys_root: "p \<noteq> [] \<Longrightarrow> trie_keys p (([], c0) # t) = trie_keys p t"
  by (simp add: trie_keys_def)

lemma trie_contains_root: "k \<noteq> [] \<Longrightarrow> trie_contains k (([], c0) # t) = trie_contains k t"
  by (simp add: trie_contains_def)

lemma trie_set_root: "k \<noteq> [] \<Longrightarrow> trie_set k v (([], c0) # t) = ([], c0) # trie_set k v t"
  by simp

lemma trie_get_root: "k \<noteq> [] \<Longrightarrow> trie_get k (([], c0) # t) = trie_get k t"
  by (simp add: trie_get_def)

lemma trie_store_root: "k \<noteq> [] \<Longrightarrow> trie_store k v (([], c0) # t) = ([], c0) # trie_store k v t"
  by (simp add: trie_store_def)

lemma trie_del_root:
  "k \<noteq> [] \<Longrightarrow> trie_del k (([], c0) # t) =
     (case trie_del k t of Inl e \<Rightarrow> Inl e | Inr t' \<Rightarrow> Inr (([], c0) # t'))"
  by (simp add: trie_del_def trie_contains_def)

lemma dirname_Nil: "dirname [] = []"
  by (simp add: dirname_def)

lemma dirname_nonempty: "dirname p \<noteq> [] \<Longrightarrow> p \<noteq> []"
  using dirname_Nil by auto

lemma merge_item_root_item:
  "merge_item db a ([], c) s = (case trie_keys [] (candidates s) of Inl e \<Rightarrow> Inl e | Inr ks \<Rightarrow> Inr s)"
  by (simp add: merge_item_def Let_def dirname_Nil split: sum.splits)

lemma trie_keys_Nil: "trie_keys [] t = Inr (map fst t)"
  by (simp add: trie_keys_def)

lemma merge_item_root_skip: "merge_item db a ([], c) s = Inr s"
  by (simp add: merge_item_root_item trie_keys_Nil)

lemma merge_item_attempt:
  "merge_item db a (p, c) s =
     (case trie_keys p (candidates s) of
        Inl e \<Rightarrow> Inl e
      | Inr ks \<Rightarrow>
          if int (length ks) - 1 \<noteq> 0 then Inr s
          else if length (dirname p) < 1 then Inr s
          else merge_attempt db a p c s (with_parent (dirname p) (candidates s)))"
  unfolding merge_item_def merge_attempt_def with_parent_def Let_def fst_conv snd_conv
  by (rule refl)

lemma merge_attempt_root:
  assumes p: "p \<noteq> []" and d: "dirname p \<noteq> []"
  shows "merge_attempt db a p c (with_root c0 s) (([], c0) # c1)
           = lift_root c0 (merge_attempt db a p c s c1)"
proof (cases "trie_get (dirname p) c1")
  case (Inl e)
  then show ?thesis
    by (simp add: merge_attempt_def lift_root_def trie_get_root[OF d])
next
  case pc: (Inr pc)
  show ?thesis
  proof (cases "HaveCommonOwners db a pc c")
    case (Inl e)
    with pc show ?thesis
      by (simp add: merge_attempt_def lift_root_def trie_get_root[OF d])
  next
    case (Inr r)
    obtain b pc1 cand1 where r: "r = (b, pc1, cand1)" by (cases r) auto
    note h = Inr[unfolded r]
    let ?c2 = "trie_store p cand1 (trie_store (dirname p) pc1 c1)"
    have c2: "trie_store p cand1 (trie_store (dirname p) pc1 (([], c0) # c1)) = ([], c0) # ?c2"
      by (simp only: trie_store_root[OF d] trie_store_root[OF p])
    show ?thesis
    proof (cases b)
      case False
      with pc h show ?thesis
        by (simp add: merge_attempt_def lift_root_def trie_get_root[OF d] c2 with_root_def)
    next
      case True
      show ?thesis
      proof (cases "trie_del p ?c2")
        case (Inl e)
        with pc h True show ?thesis
          by (simp add: merge_attempt_def lift_root_def trie_get_root[OF d] c2 trie_del_root[OF p])
      next
        case c3: (Inr c3)
        show ?thesis
        proof (cases "Merge db a pc1 cand1")
          case (Inl e)
          with pc h True c3 show ?thesis
            by (simp add: merge_attempt_def lift_root_def trie_get_root[OF d] c2 trie_del_root[OF p])
        next
          case (Inr mr)
          obtain m cand2 where mr: "mr = (m, cand2)" by (cases mr) auto
          note mg = Inr[unfolded mr]
          let ?c4 = "trie_store (dirname p) m c3"
          have c4: "trie_store (dirname p) m (([], c0) # c3) = ([], c0) # ?c4"
            by (simp only: trie_store_root[OF d])
          show ?thesis
          proof (cases "GetChangeSizeInBytes m > max_cl_size")
            case False
            with pc h True c3 mg show ?thesis
              by (simp add: merge_attempt_def lift_root_def trie_get_root[OF d] c2
                    trie_del_root[OF p] c4 with_root_def)
          next
            case big: True
            show ?thesis
            proof (cases "trie_del (dirname p) ?c4")
              case (Inl e)
              with pc h True c3 mg big show ?thesis
                by (simp add: merge_attempt_def lift_root_def trie_get_root[OF d] c2
                      trie_del_root[OF p] c4 trie_del_root[OF d] with_root_def)
            next
              case (Inr c5)
              with pc h True c3 mg big show ?thesis
                by (simp add: merge_attempt_def lift_root_def trie_get_root[OF d] c2
                      trie_del_root[OF p] c4 trie_del_root[OF d] with_root_def)
            qed
          qed
        qed
      qed
    qed
  qed
qed

lemma with_parent_root:
  "pp \<noteq> [] \<Longrightarrow> with_parent pp (([], c0) # t) = ([], c0) # with_parent pp t"
  by (simp add: with_parent_def trie_contains_root trie_set_root del: trie_set.simps)

lemma merge_item_root:
  assumes p: "p \<noteq> []"
  shows "merge_item db a (p, c) (with_root c0 s) = lift_root c0 (merge_item db a (p, c) s)"
proof (cases "trie_keys p (candidates s)")
  case (Inl e)
  then show ?thesis
    by (simp add: merge_item_attempt lift_root_def with_root_def trie_keys_root[OF p])
next
  case (Inr ks)
  show ?thesis
  proof (cases "int (length ks) - 1 \<noteq> 0 \<or> length (dirname p) < 1")
    case True
    with Inr show ?thesis
      by (auto simp: merge_item_attempt lift_root_def with_root_def trie_keys_root[OF p])
  next
    case False
    then have d: "dirname p \<noteq> []" and l: "\<not> length (dirname p) < 1"
      and z: "\<not> int (length ks) - 1 \<noteq> 0" by auto
    have c: "candidates (with_root c0 s) = ([], c0) # candidates s"
      by (simp add: with_root_def)
    have L: "merge_item db a (p, c) (with_root c0 s) =
               merge_attempt db a p c (with_root c0 s)
                 (([], c0) # with_parent (dirname p) (candidates s))"
      unfolding merge_item_attempt c trie_keys_root[OF p] Inr with_parent_root[OF d]
      using z l by simp
    have R: "merge_item db a (p, c) s =
               merge_attempt db a p c s (with_parent (dirname p) (candidates s))"
      unfolding merge_item_attempt Inr using z l by simp
    show ?thesis unfolding L R by (rule merge_attempt_root[OF p d])
  qed
qed

lemma merge_item_no_root:
  assumes "merge_item db a (p, c) s = Inr s'" "[] \<notin> set (map fst (candidates s))"
  shows "[] \<notin> set (map fst (candidates s'))"
  using assms(1)
proof (cases rule: merge_item_cases)
  case skip
  with assms(2) show ?thesis by simp
next
  case (reject k pc ox oy)
  have "set (map fst (candidates s')) = insert (dirname p) (set (map fst (candidates s)))"
    unfolding reject(8) by (simp add: keys_trie_store keys_with_parent del: set_map)
  with reject(2) assms(2) show ?thesis by auto
next
  case (merge k pc ox oy c3)
  from keys_trie_del[OF merge(8)] have
    "set (map fst c3) = insert (dirname p) (set (map fst (candidates s))) - {p}"
    by (simp_all add: keys_trie_store keys_with_parent del: set_map)
  then have "set (map fst (candidates s')) \<subseteq> insert (dirname p) (set (map fst (candidates s)))"
    unfolding merge(10) by (auto simp add: keys_trie_store simp del: set_map)
  with merge(2) assms(2) show ?thesis by auto
next
  case (emit k pc ox oy c3 c5)
  from keys_trie_del[OF emit(8)] have
    "set (map fst c3) = insert (dirname p) (set (map fst (candidates s))) - {p}"
    by (simp_all add: keys_trie_store keys_with_parent del: set_map)
  moreover from keys_trie_del[OF emit(10)] have "set (map fst c5) \<subseteq> set (map fst c3)"
    by (auto simp add: keys_trie_store simp del: set_map)
  ultimately have
    "set (map fst (candidates s')) \<subseteq> insert (dirname p) (set (map fst (candidates s)))"
    unfolding emit(11) by auto
  with emit(2) assms(2) show ?thesis by auto
qed

lemma merge_items_no_root:
  assumes "merge_items db a items s = Inr s'" "[] \<notin> set (map fst (candidates s))"
  shows "[] \<notin> set (map fst (candidates s'))"
  using assms
proof (induction items arbitrary: s)
  case Nil
  then show ?case by simp
next
  case (Cons item items)
  obtain p c where item: "item = (p, c)" by (cases item) auto
  from Cons.prems(1) obtain s1 where s1: "merge_item db a (p, c) s = Inr s1"
    and rest: "merge_items db a items s1 = Inr s'"
    unfolding item by (cases "merge_item db a (p, c) s") simp_all
  from Cons.IH[OF rest merge_item_no_root[OF s1 Cons.prems(2)]] show ?case .
qed

lemma merge_items_root:
  "[] \<notin> set (map fst items) \<Longrightarrow>
   merge_items db a items (with_root c0 s) = lift_root c0 (merge_items db a items s)"
proof (induction items arbitrary: s)
  case Nil
  then show ?case by (simp add: lift_root_def)
next
  case (Cons item items)
  obtain p c where item: "item = (p, c)" by (cases item) auto
  from Cons.prems have p: "p \<noteq> []" and rest: "[] \<notin> set (map fst items)"
    by (auto simp: item)
  show ?case
  proof (cases "merge_item db a (p, c) s")
    case (Inl e)
    then show ?thesis
      by (simp add: item merge_item_root[OF p] lift_root_def)
  next
    case (Inr s1)
    then show ?thesis
      using Cons.IH[OF rest, of s1]
      by (simp add: item merge_item_root[OF p] lift_root_def)
  qed
qed

lemma merge_pass_root:
  assumes "[] \<notin> set (map fst (candidates s))"
  shows "merge_pass db a (with_root c0 s) = lift_root c0 (merge_pass db a s)"
proof -
  have e: "(with_root c0 s)\<lparr>edited := False\<rparr> = with_root c0 (s\<lparr>edited := False\<rparr>)"
    by (simp add: with_root_def)
  have "merge_pass db a (with_root c0 s) =
          merge_items db a (([], c0) # candidates s) (with_root c0 (s\<lparr>edited := False\<rparr>))"
    by (simp only: merge_pass_def trie_items_def e) (simp add: with_root_def)
  also have "\<dots> = merge_items db a (candidates s) (with_root c0 (s\<lparr>edited := False\<rparr>))"
    by (simp add: merge_item_root_skip)
  also have "\<dots> = lift_root c0 (merge_items db a (candidates s) (s\<lparr>edited := False\<rparr>))"
    by (rule merge_items_root[OF assms])
  finally show ?thesis by (simp add: merge_pass_def trie_items_def)
qed

lemma merge_loop_root:
  "[] \<notin> set (map fst (candidates s)) \<Longrightarrow>
   merge_loop db a (with_root c0 s) = lift_root c0 (merge_loop db a s)"
proof (induction db a s rule: merge_loop.induct)
  case (1 db author s)
  note pr = merge_pass_root[OF "1.prems", of db author c0]
  show ?case
  proof (cases "merge_pass db author s")
    case (Inl e)
    then show ?thesis
      by (simp add: merge_loop.simps[of db author s]
            merge_loop.simps[of db author "with_root c0 s"] pr lift_root_def)
  next
    case (Inr s1)
    from Inr have "merge_items db author (candidates s) (s\<lparr>edited := False\<rparr>) = Inr s1"
      by (simp add: merge_pass_def trie_items_def)
    from merge_items_no_root[OF this] "1.prems"
    have nr: "[] \<notin> set (map fst (candidates s1))" by simp
    have ed: "edited (with_root c0 s1) = edited s1" by (simp add: with_root_def)
    show ?thesis
    proof (cases "edited s1")
      case True
      from "1.IH"[OF Inr True nr] Inr True ed show ?thesis
        by (simp add: merge_loop.simps[of db author s]
              merge_loop.simps[of db author "with_root c0 s"] pr lift_root_def)
    next
      case False
      with Inr ed show ?thesis
        by (simp add: merge_loop.simps[of db author s]
              merge_loop.simps[of db author "with_root c0 s"] pr lift_root_def)
    qed
  qed
qed

lemma seed_append: "seed (xs @ ys) t = seed ys (seed xs t)"
  by (induction xs arbitrary: t) simp_all

lemma keys_seed: "set (map fst (seed fs [])) = LocalPath ` set fs"
  using dom_map_of_seed[of fs] by (simp add: dom_map_of_conv_image_fst)

lemma sorted_trie_root:
  "sorted_trie t \<Longrightarrow> [] \<notin> set (map fst t) \<Longrightarrow> sorted_trie (([], c0) # t)"
proof -
  assume s: "sorted_trie t" and n: "[] \<notin> set (map fst t)"
  have "[] < k" if "k \<in> set (map fst t)" for k :: string
  proof (cases k)
    case Nil
    with that n show ?thesis by blast
  next
    case (Cons x xs)
    then show ?thesis by simp
  qed
  with s show ?thesis by (auto simp: sorted_trie_def)
qed

lemma seed_empty_path:
  assumes f0: "LocalPath f0 = []" and n: "[] \<notin> LocalPath ` set (xs @ ys)"
  shows "seed (xs @ f0 # ys) [] = ([], new_ChangeList [] {f0}) # seed (xs @ ys) []"
proof (rule sorted_trie_unique)
  show "sorted_trie (seed (xs @ f0 # ys) [])" by (simp add: sorted_seed sorted_trie_Nil)
  show "sorted_trie (([], new_ChangeList [] {f0}) # seed (xs @ ys) [])"
    by (rule sorted_trie_root) (simp_all add: sorted_seed sorted_trie_Nil keys_seed n del: set_map set_append)
  let ?c0 = "new_ChangeList [] {f0}"
  have dx: "[] \<notin> dom (map_of (seed xs []))" and dy: "[] \<notin> dom (map_of (seed ys []))"
    using n by (auto simp: dom_map_of_seed)
  have l: "map_of (seed (xs @ f0 # ys) []) =
             (map_of (seed xs []) ++ [[] \<mapsto> ?c0]) ++ map_of (seed ys [])"
    by (simp only: seed_append seed_Cons f0 map_of_seed[of ys "trie_set [] ?c0 (seed xs [])"]
          map_of_trie_set map_add_upd map_add_empty)
  have r: "map_of (([], ?c0) # seed (xs @ ys) []) =
             (map_of (seed xs []) ++ map_of (seed ys []))([] \<mapsto> ?c0)"
    by (simp only: seed_append map_of_seed[of ys "seed xs []"] map_of.simps fst_conv snd_conv)
  show "map_of (seed (xs @ f0 # ys) []) = map_of (([], ?c0) # seed (xs @ ys) [])"
    unfolding l r using dx dy
    by (auto simp: fun_eq_iff map_add_def dom_def split: option.splits)
qed

lemma SplitCLs_empty_path:
  assumes f0: "LocalPath f0 = []" and n: "[] \<notin> LocalPath ` set (xs @ ys)"
  shows "SplitCLs db a (xs @ f0 # ys) =
     (case merge_loop db a \<lparr>candidates = seed (xs @ ys) [], change_lists = [], edited = True\<rparr> of
        Inl e \<Rightarrow> Inl e
      | Inr s \<Rightarrow> Inr (change_lists s @ new_ChangeList [] {f0} # map snd (trie_items (candidates s))))"
proof -
  let ?s = "\<lparr>candidates = seed (xs @ ys) [], change_lists = [], edited = True\<rparr>"
  let ?c0 = "new_ChangeList [] {f0}"
  have nr: "[] \<notin> set (map fst (candidates ?s))"
    using n by (simp add: keys_seed del: set_map set_append)
  have "\<lparr>candidates = seed (xs @ f0 # ys) [], change_lists = [], edited = True\<rparr> = with_root ?c0 ?s"
    by (simp add: seed_empty_path[OF f0 n] with_root_def)
  then have "SplitCLs db a (xs @ f0 # ys) =
      (case lift_root ?c0 (merge_loop db a ?s) of Inl e \<Rightarrow> Inl e
       | Inr s \<Rightarrow> Inr (change_lists s @ map snd (trie_items (candidates s))))"
    unfolding SplitCLs_def by (simp only: merge_loop_root[OF nr])
  then show ?thesis
    by (cases "merge_loop db a ?s") (simp_all add: lift_root_def with_root_def trie_items_def)
qed

subsection \<open>Seeding in any order\<close>




subsection \<open>A single candidate in the trie\<close>














subsection \<open>The units partition the input files\<close>





lemma occurrences_simps [simp]:
  "occurrences f [] = 0"
  "occurrences f (u # us) = (if f \<in> cl_files u then 1 else 0) + occurrences f us"
  "occurrences f (us @ vs) = occurrences f us + occurrences f vs"
  by (simp_all add: occurrences_def)













lemma occurrences_owners [simp]:
  "occurrences f [c\<lparr>cl_owners := os\<rparr>] = occurrences f [c]"
  by simp

lemma occurrences_merged:
  "occurrences f [merged pc c os] = (if f \<in> cl_files pc \<or> f \<in> cl_files c then 1 else 0)"
  by (simp add: merged_def)








lemma keys_seed_general: "set (map fst (seed fs t)) = LocalPath ` set fs \<union> set (map fst t)"
proof (induction fs arbitrary: t)
  case Nil
  then show ?case by simp
next
  case (Cons f fs)
  show ?case by (simp add: Cons.IH keys_trie_set del: set_map)
qed






section \<open>The claims\<close>

text \<open>
  C10. For some input and oracle responses \<^verbatim>\<open>SplitCLs\<close> emits a unit whose file set is
  empty. The files \<^verbatim>\<open>p/m.txt\<close> and \<^verbatim>\<open>p/n.txt\<close> have no approver in common with the
  directory \<^verbatim>\<open>p\<close>: the first merge attempt creates the candidate for \<^verbatim>\<open>p\<close> with no
  files and is rejected, the candidate stays in the trie and is emitted at the end. Its
  approver set is what the database answers for the path \<^verbatim>\<open>p\<close> itself, which is not the
  path of any changed file.
\<close>

theorem C10_empty_unit_emitted:
  "SplitCLs disjoint_db None [file_m, file_n] =
     Inr [\<lparr>cl_path = ''p'', cl_files = {}, cl_owners = Some {''carol''}\<rparr>,
          \<lparr>cl_path = ''p/m.txt'', cl_files = {file_m}, cl_owners = Some {''alice''}\<rparr>,
          \<lparr>cl_path = ''p/n.txt'', cl_files = {file_n}, cl_owners = Some {''bob''}\<rparr>]
   \<and> Set.filter (\<lambda>owner. files_not_covered_by disjoint_db {''p''} [owner] = {})
         (all_possible_owners disjoint_db {''p''} None) = {''carol''}
   \<and> ''p'' \<notin> LocalPath ` {file_m, file_n}"
  by code_simp

text \<open>
  C7. Every unit appended to the list of results during the merge loop is larger than the
  size budget when it is appended; the result of \<^verbatim>\<open>SplitCLs\<close> is that list followed by
  the units drained from the trie, so a unit of the result that is within the budget
  stands among the drained ones.
\<close>

theorem C7_loop_emits_only_over_budget:
  assumes "SplitCLs db author files = Inr units"
  shows "\<exists>s. merge_loop db author \<lparr>candidates = seed files [], change_lists = [], edited = True\<rparr> = Inr s
      \<and> units = change_lists s @ map snd (trie_items (candidates s))
      \<and> (\<forall>u \<in> set (change_lists s). GetChangeSizeInBytes u > max_cl_size)
      \<and> (\<forall>i < length units. GetChangeSizeInBytes (units ! i) \<le> max_cl_size \<longrightarrow>
            length (change_lists s) \<le> i)"
proof -
  from assms obtain s where
    s: "merge_loop db author \<lparr>candidates = seed files [], change_lists = [], edited = True\<rparr> = Inr s"
       "units = change_lists s @ map snd (trie_items (candidates s))"
    by (rule SplitCLs_Inr)
  from merge_loop_change_lists[OF s(1)] have "list_all emitted_in_loop (change_lists s)"
    by auto
  then have big: "\<forall>u \<in> set (change_lists s). GetChangeSizeInBytes u > max_cl_size"
    by (simp add: list_all_iff emitted_in_loop_def)
  have "length (change_lists s) \<le> i"
    if "i < length units" "GetChangeSizeInBytes (units ! i) \<le> max_cl_size" for i
  proof (rule ccontr)
    assume "\<not> length (change_lists s) \<le> i"
    then have i: "i < length (change_lists s)" by simp
    then have "units ! i = change_lists s ! i" unfolding s(2) by (simp add: nth_append)
    with big i that(2) show False by (metis nth_mem not_less)
  qed
  with s big show ?thesis by blast
qed

theorem C7_witness:
  "SplitCLs alice_db None [file_x, file_y, file_z] =
     Inr [\<lparr>cl_path = ''b'', cl_files = {file_z}, cl_owners = Some {''alice''}\<rparr>,
          \<lparr>cl_path = ''a'', cl_files = {file_x, file_y}, cl_owners = Some {''alice''}\<rparr>]
   \<and> (\<exists>s. merge_loop alice_db None
            \<lparr>candidates = seed [file_x, file_y, file_z] [], change_lists = [], edited = True\<rparr> = Inr s
      \<and> [\<lparr>cl_path = ''b'', cl_files = {file_z}, cl_owners = Some {''alice''}\<rparr>,
          \<lparr>cl_path = ''a'', cl_files = {file_x, file_y}, cl_owners = Some {''alice''}\<rparr>]
         = change_lists s @ map snd (trie_items (candidates s))
      \<and> (\<forall>u \<in> set (change_lists s). GetChangeSizeInBytes u > max_cl_size)
      \<and> (\<forall>i < length [\<lparr>cl_path = ''b'', cl_files = {file_z}, cl_owners = Some {''alice''}\<rparr>,
          \<lparr>cl_path = ''a'', cl_files = {file_x, file_y}, cl_owners = Some {''alice''}\<rparr>].
             GetChangeSizeInBytes ([\<lparr>cl_path = ''b'', cl_files = {file_z}, cl_owners = Some {''alice''}\<rparr>,
          \<lparr>cl_path = ''a'', cl_files = {file_x, file_y}, cl_owners = Some {''alice''}\<rparr>] ! i) \<le> max_cl_size \<longrightarrow>
            length (change_lists s) \<le> i))"
proof -
  have e: "SplitCLs alice_db None [file_x, file_y, file_z] =
     Inr [\<lparr>cl_path = ''b'', cl_files = {file_z}, cl_owners = Some {''alice''}\<rparr>,
          \<lparr>cl_path = ''a'', cl_files = {file_x, file_y}, cl_owners = Some {''alice''}\<rparr>]"
    by code_simp
  from C7_loop_emits_only_over_budget[OF e] e show ?thesis by simp
qed

text \<open>
  C2, as stated, fails: a unit that is still in the trie when the loop ends is appended to
  the result without its approver set being looked at. With no owner at all, the top-level
  file \<^verbatim>\<open>README\<close> is emitted, and asking for its owners fails.
\<close>

theorem C2_counterexample:
  "SplitCLs nobody_db None [file_readme] =
     Inr [\<lparr>cl_path = ''README'', cl_files = {file_readme}, cl_owners = None\<rparr>]
   \<and> GetOwners nobody_db None \<lparr>cl_path = ''README'', cl_files = {file_readme}, cl_owners = None\<rparr>
       = Inl AssertionError"
  by code_simp

text \<open>
  C2, amended. Every unit that \<^verbatim>\<open>SplitCLs\<close> returns has an approver set that is either
  not resolved yet or not empty, and the units emitted inside the merge loop have a
  resolved, non-empty one. When a merge attempt finds that the approver set of the parent
  candidate or of the candidate resolves empty, the loop body fails with an assertion
  error; an error of a loop body is the result of the \<^verbatim>\<open>for\<close> loop, of the pass, of the
  merge loop and of \<^verbatim>\<open>SplitCLs\<close>, so no partial list is returned. In particular a single
  file in a directory fails the whole call when the directory or the file has no approver.
  Only a unit whose approver set was never resolved, such as a file at the top level, is
  emitted unchecked when the trie is drained.
\<close>

theorem C2_units_resolved_or_abort:
  "(SplitCLs db author files = Inr units \<longrightarrow>
      (\<exists>s. merge_loop db author
              \<lparr>candidates = seed files [], change_lists = [], edited = True\<rparr> = Inr s
         \<and> units = change_lists s @ map snd (trie_items (candidates s))
         \<and> (\<forall>u \<in> set (change_lists s). \<exists>os. cl_owners u = Some os \<and> os \<noteq> {}))
      \<and> (\<forall>u \<in> set units. cl_owners u \<noteq> Some {}))
   \<and> (trie_keys p (candidates s0) = Inr [k] \<and> dirname p \<noteq> []
        \<and> trie_get (dirname p) (with_parent (dirname p) (candidates s0)) = Inr pc
        \<and> (current_owners db author pc = {} \<or> current_owners db author c = {}) \<longrightarrow>
        merge_item db author (p, c) s0 = Inl AssertionError)
   \<and> (merge_items db author items0 s0 = Inr s1 \<and> merge_item db author item s1 = Inl e \<longrightarrow>
        merge_items db author (items0 @ item # rest) s0 = Inl e)
   \<and> (merge_pass db author s0 = Inl e \<longrightarrow> merge_loop db author s0 = Inl e)
   \<and> (merge_pass db author s0 = Inr s1 \<and> edited s1 \<longrightarrow>
        merge_loop db author s0 = merge_loop db author s1)
   \<and> (merge_loop db author \<lparr>candidates = seed files [], change_lists = [], edited = True\<rparr> = Inl e
        \<longrightarrow> SplitCLs db author files = Inl e)
   \<and> (dirname (LocalPath f) \<noteq> [] \<and> dirname (LocalPath f) \<noteq> LocalPath f
        \<and> (oracle_owners db author (new_ChangeList (dirname (LocalPath f)) {}) = {}
             \<or> oracle_owners db author (new_ChangeList (LocalPath f) {f}) = {}) \<longrightarrow>
        SplitCLs db author [f] = Inl AssertionError)"
proof (intro conjI impI)
  assume r: "SplitCLs db author files = Inr units"
  then obtain s where
    s: "merge_loop db author \<lparr>candidates = seed files [], change_lists = [], edited = True\<rparr> = Inr s"
       "units = change_lists s @ map snd (trie_items (candidates s))"
    by (rule SplitCLs_Inr)
  from merge_loop_change_lists[OF s(1)] have l: "list_all emitted_in_loop (change_lists s)"
    by auto
  then have a: "\<forall>u \<in> set (change_lists s). \<exists>os. cl_owners u = Some os \<and> os \<noteq> {}"
    by (simp add: list_all_iff emitted_in_loop_def)
  from s a show "\<exists>s. merge_loop db author
              \<lparr>candidates = seed files [], change_lists = [], edited = True\<rparr> = Inr s
         \<and> units = change_lists s @ map snd (trie_items (candidates s))
         \<and> (\<forall>u \<in> set (change_lists s). \<exists>os. cl_owners u = Some os \<and> os \<noteq> {})"
    by blast
  have "list_all owners_resolved_or_unset (map snd (seed files []))"
    by (rule seed_owners) simp
  with merge_loop_owners[OF s(1)]
  have d: "list_all owners_resolved_or_unset (map snd (candidates s))" by simp
  have "\<forall>u \<in> set (change_lists s). cl_owners u \<noteq> Some {}"
    using a by auto
  moreover have "\<forall>u \<in> set (map snd (candidates s)). cl_owners u \<noteq> Some {}"
    using d by (simp add: list_all_iff owners_resolved_or_unset_def)
  ultimately show "\<forall>u \<in> set units. cl_owners u \<noteq> Some {}"
    unfolding s(2) trie_items_def by auto
next
  assume "trie_keys p (candidates s0) = Inr [k] \<and> dirname p \<noteq> []
        \<and> trie_get (dirname p) (with_parent (dirname p) (candidates s0)) = Inr pc
        \<and> (current_owners db author pc = {} \<or> current_owners db author c = {})"
  then show "merge_item db author (p, c) s0 = Inl AssertionError"
    using merge_item_abort[of p s0 k pc db author c] by blast
next
  assume "merge_items db author items0 s0 = Inr s1 \<and> merge_item db author item s1 = Inl e"
  then show "merge_items db author (items0 @ item # rest) s0 = Inl e"
    using merge_items_abort by blast
next
  assume "merge_pass db author s0 = Inl e"
  then show "merge_loop db author s0 = Inl e" by (rule merge_loop_abort)
next
  assume "merge_pass db author s0 = Inr s1 \<and> edited s1"
  then show "merge_loop db author s0 = merge_loop db author s1"
    using merge_loop_next by blast
next
  assume "merge_loop db author \<lparr>candidates = seed files [], change_lists = [], edited = True\<rparr> = Inl e"
  then show "SplitCLs db author files = Inl e" by (rule SplitCLs_abort)
next
  assume "dirname (LocalPath f) \<noteq> [] \<and> dirname (LocalPath f) \<noteq> LocalPath f
        \<and> (oracle_owners db author (new_ChangeList (dirname (LocalPath f)) {}) = {}
             \<or> oracle_owners db author (new_ChangeList (LocalPath f) {f}) = {})"
  then show "SplitCLs db author [f] = Inl AssertionError"
    using SplitCLs_single_file_abort[of f db author] by blast
qed

theorem C2_units_witness:
  "SplitCLs alice_db None [file_x, file_y, file_z] =
     Inr [\<lparr>cl_path = ''b'', cl_files = {file_z}, cl_owners = Some {''alice''}\<rparr>,
          \<lparr>cl_path = ''a'', cl_files = {file_x, file_y}, cl_owners = Some {''alice''}\<rparr>]
   \<and> (\<exists>s. merge_loop alice_db None
            \<lparr>candidates = seed [file_x, file_y, file_z] [], change_lists = [], edited = True\<rparr> = Inr s
      \<and> [\<lparr>cl_path = ''b'', cl_files = {file_z}, cl_owners = Some {''alice''}\<rparr>,
          \<lparr>cl_path = ''a'', cl_files = {file_x, file_y}, cl_owners = Some {''alice''}\<rparr>]
         = change_lists s @ map snd (trie_items (candidates s))
      \<and> (\<forall>u \<in> set (change_lists s). \<exists>os. cl_owners u = Some os \<and> os \<noteq> {}))
   \<and> trie_keys ''d/x'' (candidates state_dx) = Inr [''d/x''] \<and> dirname ''d/x'' \<noteq> []
   \<and> trie_get (dirname ''d/x'') (with_parent (dirname ''d/x'') (candidates state_dx))
        = Inr (new_ChangeList ''d'' {})
   \<and> current_owners nobody_db None (new_ChangeList ''d'' {}) = {}
   \<and> merge_item nobody_db None (''d/x'', new_ChangeList ''d/x'' {file_dx}) state_dx
        = Inl AssertionError
   \<and> merge_items nobody_db None [] state_dx = Inr state_dx
   \<and> merge_items nobody_db None ([] @ (''d/x'', new_ChangeList ''d/x'' {file_dx}) # []) state_dx
        = Inl AssertionError
   \<and> merge_pass nobody_db None state_dx = Inl AssertionError
   \<and> merge_loop nobody_db None state_dx = Inl AssertionError
   \<and> merge_pass alice_db None state_dx = Inr state_d \<and> edited state_d
   \<and> merge_loop alice_db None state_dx = merge_loop alice_db None state_d
   \<and> merge_loop nobody_db None
        \<lparr>candidates = seed [file_readme, file_dx] [], change_lists = [], edited = True\<rparr>
        = Inl AssertionError
   \<and> SplitCLs nobody_db None [file_readme, file_dx] = Inl AssertionError
   \<and> dirname (LocalPath file_dx) \<noteq> [] \<and> dirname (LocalPath file_dx) \<noteq> LocalPath file_dx
   \<and> oracle_owners nobody_db None (new_ChangeList (dirname (LocalPath file_dx)) {}) = {}
   \<and> SplitCLs nobody_db None [file_dx] = Inl AssertionError"
proof -
  have e: "SplitCLs alice_db None [file_x, file_y, file_z] =
     Inr [\<lparr>cl_path = ''b'', cl_files = {file_z}, cl_owners = Some {''alice''}\<rparr>,
          \<lparr>cl_path = ''a'', cl_files = {file_x, file_y}, cl_owners = Some {''alice''}\<rparr>]"
    by code_simp
  note t1 = C2_units_resolved_or_abort[where db=alice_db and author=None
      and files="[file_x, file_y, file_z]", THEN conjunct1, THEN mp, OF e, THEN conjunct1]
  have k1: "trie_keys ''d/x'' (candidates state_dx) = Inr [''d/x'']" by code_simp
  have k2: "dirname ''d/x'' \<noteq> []" by code_simp
  have k3: "trie_get (dirname ''d/x'') (with_parent (dirname ''d/x'') (candidates state_dx))
        = Inr (new_ChangeList ''d'' {})" by code_simp
  have k4: "current_owners nobody_db None (new_ChangeList ''d'' {}) = {}" by code_simp
  have h2: "trie_keys ''d/x'' (candidates state_dx) = Inr [''d/x''] \<and> dirname ''d/x'' \<noteq> []
        \<and> trie_get (dirname ''d/x'') (with_parent (dirname ''d/x'') (candidates state_dx))
             = Inr (new_ChangeList ''d'' {})
        \<and> (current_owners nobody_db None (new_ChangeList ''d'' {}) = {}
             \<or> current_owners nobody_db None (new_ChangeList ''d/x'' {file_dx}) = {})"
    using k1 k2 k3 k4 by (intro conjI disjI1)
  note t2 = C2_units_resolved_or_abort[where db=nobody_db and author=None and p="''d/x''"
      and ?s0.0=state_dx and k="''d/x''" and pc="new_ChangeList ''d'' {}"
      and c="new_ChangeList ''d/x'' {file_dx}",
      THEN conjunct2, THEN conjunct1, THEN mp, OF h2]
  have i1: "merge_items nobody_db None [] state_dx = Inr state_dx" by simp
  note t3 = C2_units_resolved_or_abort[where db=nobody_db and author=None and ?items0.0="[]"
      and ?s0.0=state_dx and ?s1.0=state_dx and item="(''d/x'', new_ChangeList ''d/x'' {file_dx})"
      and e=AssertionError and rest="[]",
      THEN conjunct2, THEN conjunct2, THEN conjunct1, THEN mp, OF conjI[OF i1 t2]]
  have p1: "merge_pass nobody_db None state_dx = Inl AssertionError" by code_simp
  note t4 = C2_units_resolved_or_abort[where db=nobody_db and author=None
      and ?s0.0=state_dx and e=AssertionError,
      THEN conjunct2, THEN conjunct2, THEN conjunct2, THEN conjunct1, THEN mp, OF p1]
  have p2: "merge_pass alice_db None state_dx = Inr state_d" by code_simp
  have p3: "edited state_d" by (simp add: state_d_def)
  note t5 = C2_units_resolved_or_abort[where db=alice_db and author=None
      and ?s0.0=state_dx and ?s1.0=state_d,
      THEN conjunct2, THEN conjunct2, THEN conjunct2, THEN conjunct2, THEN conjunct1, THEN mp,
      OF conjI[OF p2 p3]]
  have l1: "merge_loop nobody_db None
        \<lparr>candidates = seed [file_readme, file_dx] [], change_lists = [], edited = True\<rparr>
        = Inl AssertionError" by code_simp
  note t6 = C2_units_resolved_or_abort[where db=nobody_db and author=None
      and files="[file_readme, file_dx]" and e=AssertionError,
      THEN conjunct2, THEN conjunct2, THEN conjunct2, THEN conjunct2, THEN conjunct2,
      THEN conjunct1, THEN mp, OF l1]
  have d1: "dirname (LocalPath file_dx) \<noteq> []" by code_simp
  have d2: "dirname (LocalPath file_dx) \<noteq> LocalPath file_dx" by code_simp
  have d3: "oracle_owners nobody_db None (new_ChangeList (dirname (LocalPath file_dx)) {}) = {}"
    by code_simp
  have h: "dirname (LocalPath file_dx) \<noteq> [] \<and> dirname (LocalPath file_dx) \<noteq> LocalPath file_dx
        \<and> (oracle_owners nobody_db None (new_ChangeList (dirname (LocalPath file_dx)) {}) = {}
             \<or> oracle_owners nobody_db None (new_ChangeList (LocalPath file_dx) {file_dx}) = {})"
    using d1 d2 d3 by (intro conjI disjI1)
  note t7 = C2_units_resolved_or_abort[where db=nobody_db and author=None and f=file_dx,
      THEN conjunct2, THEN conjunct2, THEN conjunct2, THEN conjunct2, THEN conjunct2,
      THEN conjunct2, THEN mp, OF h]
  show ?thesis by (intro conjI e t1 k1 k2 k3 k4 t2 i1 t3 p1 t4 p2 p3 t5 l1 t6 d1 d2 d3 t7)
qed

text \<open>
  C5, as stated, fails: \<^verbatim>\<open>Merge\<close> stores the intersection of the two approver sets, and
  \<^verbatim>\<open>GetOwners\<close> returns a stored non-empty set without asking the database. Merging
  \<^verbatim>\<open>a/x.txt\<close> (owners alice and bob) into the empty candidate for \<^verbatim>\<open>a\<close> (owner alice)
  leaves alice, while the database, asked about the files of the merged unit, answers
  alice and bob.
\<close>

theorem C5_counterexample:
  "Merge perfile_db None (new_ChangeList ''a'' {}) (new_ChangeList ''a/x.txt'' {file_x}) =
     Inr (\<lparr>cl_path = ''a'', cl_files = {file_x}, cl_owners = Some {''alice''}\<rparr>,
          \<lparr>cl_path = ''a/x.txt'', cl_files = {file_x}, cl_owners = Some {''alice'', ''bob''}\<rparr>)
   \<and> GetOwners perfile_db None \<lparr>cl_path = ''a'', cl_files = {file_x}, cl_owners = Some {''alice''}\<rparr> =
     Inr (Some {''alice''}, \<lparr>cl_path = ''a'', cl_files = {file_x}, cl_owners = Some {''alice''}\<rparr>)
   \<and> Set.filter (\<lambda>owner. files_not_covered_by perfile_db (LocalPath ` {file_x}) [owner] = {})
         (all_possible_owners perfile_db (LocalPath ` {file_x}) None) = {''alice'', ''bob''}
   \<and> {''alice''} \<noteq> {''alice'', ''bob''}"
  by code_simp

text \<open>
  C5, amended. \<^verbatim>\<open>GetOwners\<close> asks the database only when the unit has no non-empty
  memoized approver set: it then stores and returns the owners that leave none of the
  current files of the unit uncovered (its anchor path stands in when it has no files),
  and fails with an assertion error when there is none. \<^verbatim>\<open>Merge(other)\<close> does not
  invalidate the memo: it stores in \<^verbatim>\<open>self\<close> the intersection of the current approver
  sets of the two units and adds the files of \<^verbatim>\<open>other\<close>. A later \<^verbatim>\<open>GetOwners()\<close> returns
  a stored non-empty intersection as it is, and asks the database about the files of the
  merged unit only when the stored intersection is empty.
\<close>

theorem C5_owners_memoized_until_empty:
  "GetOwners db author cl =
     (if current_owners db author cl = {} then Inl AssertionError
      else Inr (Some (current_owners db author cl),
                cl\<lparr>cl_owners := Some (current_owners db author cl)\<rparr>))
   \<and> Merge db author self other =
     (if current_owners db author self = {} \<or> current_owners db author other = {}
      then Inl AssertionError
      else Inr (self\<lparr>cl_owners := Some (current_owners db author self
                                            \<inter> current_owners db author other),
                     cl_files := cl_files self \<union> cl_files other\<rparr>,
                other\<lparr>cl_owners := Some (current_owners db author other)\<rparr>))
   \<and> GetOwners db author (unit\<lparr>cl_owners := Some common\<rparr>) =
     (if common \<noteq> {} then Inr (Some common, unit\<lparr>cl_owners := Some common\<rparr>)
      else if oracle_owners db author unit = {} then Inl AssertionError
      else Inr (Some (oracle_owners db author unit),
                unit\<lparr>cl_owners := Some (oracle_owners db author unit)\<rparr>))"
proof (intro conjI)
  show "GetOwners db author cl =
     (if current_owners db author cl = {} then Inl AssertionError
      else Inr (Some (current_owners db author cl),
                cl\<lparr>cl_owners := Some (current_owners db author cl)\<rparr>))"
    by (rule GetOwners_current)
  show "Merge db author self other =
     (if current_owners db author self = {} \<or> current_owners db author other = {}
      then Inl AssertionError
      else Inr (self\<lparr>cl_owners := Some (current_owners db author self
                                            \<inter> current_owners db author other),
                     cl_files := cl_files self \<union> cl_files other\<rparr>,
                other\<lparr>cl_owners := Some (current_owners db author other)\<rparr>))"
    by (rule Merge_current)
  have o: "oracle_owners db author (unit\<lparr>cl_owners := x\<rparr>) = oracle_owners db author unit" for x
    by (simp add: oracle_owners_def)
  show "GetOwners db author (unit\<lparr>cl_owners := Some common\<rparr>) =
     (if common \<noteq> {} then Inr (Some common, unit\<lparr>cl_owners := Some common\<rparr>)
      else if oracle_owners db author unit = {} then Inl AssertionError
      else Inr (Some (oracle_owners db author unit),
                unit\<lparr>cl_owners := Some (oracle_owners db author unit)\<rparr>))"
    by (simp add: GetOwners_current current_owners_def o)
qed

theorem C5_owners_witness:
  "current_owners perfile_db None (new_ChangeList ''a'' {}) = {''alice''}
   \<and> current_owners perfile_db None (new_ChangeList ''a/x.txt'' {file_x}) = {''alice'', ''bob''}
   \<and> Merge perfile_db None (new_ChangeList ''a'' {}) (new_ChangeList ''a/x.txt'' {file_x}) =
       Inr (\<lparr>cl_path = ''a'', cl_files = {file_x}, cl_owners = Some {''alice''}\<rparr>,
            \<lparr>cl_path = ''a/x.txt'', cl_files = {file_x}, cl_owners = Some {''alice'', ''bob''}\<rparr>)
   \<and> GetOwners perfile_db None
         (\<lparr>cl_path = ''a'', cl_files = {file_x}, cl_owners = None\<rparr>\<lparr>cl_owners := Some {''alice''}\<rparr>)
       = Inr (Some {''alice''}, \<lparr>cl_path = ''a'', cl_files = {file_x}, cl_owners = Some {''alice''}\<rparr>)
   \<and> oracle_owners perfile_db None \<lparr>cl_path = ''a'', cl_files = {file_x}, cl_owners = None\<rparr>
       = {''alice'', ''bob''}"
proof -
  have e1: "current_owners perfile_db None (new_ChangeList ''a'' {}) = {''alice''}" by code_simp
  have e2: "current_owners perfile_db None (new_ChangeList ''a/x.txt'' {file_x}) = {''alice'', ''bob''}"
    by code_simp
  have e3: "oracle_owners perfile_db None \<lparr>cl_path = ''a'', cl_files = {file_x}, cl_owners = None\<rparr>
       = {''alice'', ''bob''}" by code_simp
  note t = C5_owners_memoized_until_empty[where db=perfile_db and author=None
      and cl="new_ChangeList ''a'' {}" and self="new_ChangeList ''a'' {}"
      and other="new_ChangeList ''a/x.txt'' {file_x}"
      and unit="\<lparr>cl_path = ''a'', cl_files = {file_x}, cl_owners = None\<rparr>"
      and common="{''alice''}"]
  from t[THEN conjunct2, THEN conjunct1] have m:
    "Merge perfile_db None (new_ChangeList ''a'' {}) (new_ChangeList ''a/x.txt'' {file_x}) =
       Inr (\<lparr>cl_path = ''a'', cl_files = {file_x}, cl_owners = Some {''alice''}\<rparr>,
            \<lparr>cl_path = ''a/x.txt'', cl_files = {file_x}, cl_owners = Some {''alice'', ''bob''}\<rparr>)"
    unfolding e1 e2 by (simp add: new_ChangeList_def)
  from t[THEN conjunct2, THEN conjunct2] have g:
    "GetOwners perfile_db None
         (\<lparr>cl_path = ''a'', cl_files = {file_x}, cl_owners = None\<rparr>\<lparr>cl_owners := Some {''alice''}\<rparr>)
       = Inr (Some {''alice''}, \<lparr>cl_path = ''a'', cl_files = {file_x}, cl_owners = Some {''alice''}\<rparr>)"
    by simp
  show ?thesis by (intro conjI e1 e2 m g e3)
qed

text \<open>
  C6, as stated, fails: nothing is checked when the files are read. A file with the empty
  path is seeded, never merged, and emitted; of two files with one path the second
  replaces the first in the trie, and only the second is in the result.
\<close>

theorem C6_counterexample:
  "SplitCLs alice_db None [file_empty_path] =
     Inr [\<lparr>cl_path = [], cl_files = {file_empty_path}, cl_owners = None\<rparr>]
   \<and> SplitCLs alice_db None [file_dup1, file_dup2] =
     Inr [\<lparr>cl_path = ''x'', cl_files = {file_dup2}, cl_owners = Some {''alice''}\<rparr>]
   \<and> LocalPath file_dup1 = LocalPath file_dup2 \<and> file_dup1 \<noteq> file_dup2"
  by code_simp

text \<open>
  C6, amended. \<^verbatim>\<open>SplitCLs\<close> validates nothing and never rejects an input because of an
  empty or a duplicate path. Of several files with one path only the last in the order
  of iteration counts: the result is the result for the input without the earlier ones.
  A file with the empty path is seeded like any other file, takes part in no merge and
  leaves the treatment of the other files as it is: the call fails exactly when it fails
  without that file, and otherwise returns the same units and, as the first of the
  drained ones, the unit anchored at the empty path that holds the file.
\<close>

theorem C6_never_rejects:
  "SplitCLs db author files = SplitCLs db author (last_per_path files)
   \<and> (LocalPath f0 = [] \<and> [] \<notin> LocalPath ` set (xs @ ys) \<longrightarrow>
        SplitCLs db author (xs @ f0 # ys) =
          (case merge_loop db author
                  \<lparr>candidates = seed (xs @ ys) [], change_lists = [], edited = True\<rparr> of
             Inl e \<Rightarrow> Inl e
           | Inr s \<Rightarrow> Inr (change_lists s @ new_ChangeList [] {f0}
                              # map snd (trie_items (candidates s)))))"
proof (intro conjI impI)
  show "SplitCLs db author files = SplitCLs db author (last_per_path files)"
    by (rule SplitCLs_last_per_path)
next
  assume "LocalPath f0 = [] \<and> [] \<notin> LocalPath ` set (xs @ ys)"
  then have a: "LocalPath f0 = []" and b: "[] \<notin> LocalPath ` set (xs @ ys)" by blast+
  show "SplitCLs db author (xs @ f0 # ys) =
          (case merge_loop db author
                  \<lparr>candidates = seed (xs @ ys) [], change_lists = [], edited = True\<rparr> of
             Inl e \<Rightarrow> Inl e
           | Inr s \<Rightarrow> Inr (change_lists s @ new_ChangeList [] {f0}
                              # map snd (trie_items (candidates s))))"
    by (rule SplitCLs_empty_path[OF a b])
qed

theorem C6_never_rejects_witness:
  "last_per_path [file_dup1, file_dx, file_dup2] = [file_dx, file_dup2]
   \<and> SplitCLs alice_db None [file_dup1, file_dx, file_dup2]
       = SplitCLs alice_db None (last_per_path [file_dup1, file_dx, file_dup2])
   \<and> SplitCLs alice_db None [file_dup1, file_dx, file_dup2]
       = Inr [\<lparr>cl_path = ''d'', cl_files = {file_dx}, cl_owners = Some {''alice''}\<rparr>,
              \<lparr>cl_path = ''x'', cl_files = {file_dup2}, cl_owners = Some {''alice''}\<rparr>]
   \<and> LocalPath file_empty_path = [] \<and> [] \<notin> LocalPath ` set ([] @ [file_dx])
   \<and> merge_loop alice_db None
         \<lparr>candidates = seed ([] @ [file_dx]) [], change_lists = [], edited = True\<rparr>
       = Inr (state_d\<lparr>edited := False\<rparr>)
   \<and> SplitCLs alice_db None ([] @ file_empty_path # [file_dx])
       = Inr [\<lparr>cl_path = [], cl_files = {file_empty_path}, cl_owners = None\<rparr>,
              \<lparr>cl_path = ''d'', cl_files = {file_dx}, cl_owners = Some {''alice''}\<rparr>]"
proof -
  have l: "last_per_path [file_dup1, file_dx, file_dup2] = [file_dx, file_dup2]" by code_simp
  note t1 = C6_never_rejects[where db=alice_db and author=None
      and files="[file_dup1, file_dx, file_dup2]", THEN conjunct1]
  have v: "SplitCLs alice_db None [file_dx, file_dup2]
       = Inr [\<lparr>cl_path = ''d'', cl_files = {file_dx}, cl_owners = Some {''alice''}\<rparr>,
              \<lparr>cl_path = ''x'', cl_files = {file_dup2}, cl_owners = Some {''alice''}\<rparr>]"
    by code_simp
  have v': "SplitCLs alice_db None [file_dup1, file_dx, file_dup2]
       = Inr [\<lparr>cl_path = ''d'', cl_files = {file_dx}, cl_owners = Some {''alice''}\<rparr>,
              \<lparr>cl_path = ''x'', cl_files = {file_dup2}, cl_owners = Some {''alice''}\<rparr>]"
    using t1 unfolding l v .
  have a: "LocalPath file_empty_path = []" by code_simp
  have b: "[] \<notin> LocalPath ` set ([] @ [file_dx])" by code_simp
  have m: "merge_loop alice_db None
         \<lparr>candidates = seed ([] @ [file_dx]) [], change_lists = [], edited = True\<rparr>
       = Inr (state_d\<lparr>edited := False\<rparr>)" by code_simp
  note t2 = C6_never_rejects[where db=alice_db and author=None and ?f0.0=file_empty_path
      and xs="[]" and ys="[file_dx]", THEN conjunct2, THEN mp, OF conjI[OF a b]]
  have e: "SplitCLs alice_db None ([] @ file_empty_path # [file_dx])
       = Inr [\<lparr>cl_path = [], cl_files = {file_empty_path}, cl_owners = None\<rparr>,
              \<lparr>cl_path = ''d'', cl_files = {file_dx}, cl_owners = Some {''alice''}\<rparr>]"
    unfolding t2 m by (simp add: state_d_def trie_items_def new_ChangeList_def)
  show ?thesis by (intro conjI l t1 v' a b m e)
qed

text \<open>
  C9, as stated, fails in its second part: a merge into a parent candidate that had to be
  created removes one entry and adds one, so the number of entries stays the same.
\<close>

theorem C9_counterexample:
  "merge_item alice_db None (''d/x'', new_ChangeList ''d/x'' {file_dx})
      \<lparr>candidates = [(''d/x'', new_ChangeList ''d/x'' {file_dx})], change_lists = [], edited = False\<rparr>
   = Inr \<lparr>candidates = [(''d'', \<lparr>cl_path = ''d'', cl_files = {file_dx}, cl_owners = Some {''alice''}\<rparr>)],
          change_lists = [], edited = True\<rparr>
   \<and> \<not> length [(''d'', \<lparr>cl_path = ''d'', cl_files = {file_dx}, cl_owners = Some {''alice''}\<rparr>)]
        < length [(''d/x'', new_ChangeList ''d/x'' {file_dx})]"
  by code_simp

text \<open>
  C9, amended. The merge loop terminates: with one pass more than there are prefixes of
  keys in the trie, the bounded loop returns what the loop returns, and the state returned
  comes from a pass that merged nothing. A merge step (one that sets the flag) on an item
  whose key is in the trie strictly shrinks the set of prefixes of keys and does not
  increase the number of entries.
\<close>

theorem C9_merge_loop_terminates:
  "merge_loop_bounded (Suc (card (key_prefixes (candidates s)))) db author s
     = Some (merge_loop db author s)
   \<and> (merge_loop db author s = Inr s' \<longrightarrow> \<not> edited s')
   \<and> (merge_item db author (p, c) s = Inr s1 \<and> \<not> edited s \<and> edited s1
        \<and> p \<in> set (map fst (candidates s)) \<longrightarrow>
         key_prefixes (candidates s1) \<subset> key_prefixes (candidates s)
         \<and> length (candidates s1) \<le> length (candidates s))"
proof (intro conjI impI)
  show "merge_loop_bounded (Suc (card (key_prefixes (candidates s)))) db author s
     = Some (merge_loop db author s)"
    by (rule merge_loop_bounded_enough) simp
next
  assume "merge_loop db author s = Inr s'"
  then show "\<not> edited s'" by (rule merge_loop_not_edited)
next
  assume a: "merge_item db author (p, c) s = Inr s1 \<and> \<not> edited s \<and> edited s1
        \<and> p \<in> set (map fst (candidates s))"
  with merge_item_key_prefixes[of db author p c s s1]
  show "key_prefixes (candidates s1) \<subset> key_prefixes (candidates s)" by blast
  from a merge_item_length[of db author p c s s1]
  show "length (candidates s1) \<le> length (candidates s)" by blast
qed

theorem C9_witness:
  "merge_loop_bounded (Suc (card (key_prefixes (candidates state_dx)))) alice_db None state_dx
     = Some (merge_loop alice_db None state_dx)
   \<and> merge_loop alice_db None state_dx = Inr (state_d\<lparr>edited := False\<rparr>)
   \<and> \<not> edited (state_d\<lparr>edited := False\<rparr>)
   \<and> merge_item alice_db None (''d/x'', new_ChangeList ''d/x'' {file_dx}) state_dx = Inr state_d
   \<and> \<not> edited state_dx \<and> edited state_d \<and> ''d/x'' \<in> set (map fst (candidates state_dx))
   \<and> key_prefixes (candidates state_d) \<subset> key_prefixes (candidates state_dx)
   \<and> length (candidates state_d) \<le> length (candidates state_dx)"
proof -
  have a: "merge_loop alice_db None state_dx = Inr (state_d\<lparr>edited := False\<rparr>)"
    by code_simp
  have b: "merge_item alice_db None (''d/x'', new_ChangeList ''d/x'' {file_dx}) state_dx = Inr state_d"
    by code_simp
  have c: "\<not> edited state_dx" "edited state_d" "''d/x'' \<in> set (map fst (candidates state_dx))"
    by (simp_all add: state_dx_def state_d_def)
  note t = C9_merge_loop_terminates[of state_dx alice_db None "state_d\<lparr>edited := False\<rparr>" "''d/x''"
      "new_ChangeList ''d/x'' {file_dx}" state_d]
  note t1 = t[THEN conjunct1]
  note t2 = t[THEN conjunct2, THEN conjunct1, THEN mp, OF a]
  have "key_prefixes (candidates state_d) \<subset> key_prefixes (candidates state_dx)
         \<and> length (candidates state_d) \<le> length (candidates state_dx)"
    by (rule mp[OF t[THEN conjunct2, THEN conjunct2]]) (intro conjI b c)
  then have t3: "key_prefixes (candidates state_d) \<subset> key_prefixes (candidates state_dx)"
    and t4: "length (candidates state_d) \<le> length (candidates state_dx)"
    by (rule conjunct1, rule conjunct2)
  show ?thesis by (intro conjI t1 a t2 b c t3 t4)
qed

text \<open>
  C8. The claim says that the count of sub-candidates of a candidate at path \<open>P\<close> is the
  number of entries in a strict subdirectory of \<open>P\<close>, and that a sibling whose path only
  starts with the characters of \<open>P\<close> is not counted. The code counts the keys that have
  \<open>P\<close> as a prefix of characters: after the first pass over \<^verbatim>\<open>d/a/x\<close> and \<^verbatim>\<open>d/ab/y\<close>
  the trie holds \<^verbatim>\<open>d/a\<close> and \<^verbatim>\<open>d/ab\<close>, the count for \<^verbatim>\<open>d/a\<close> is 1 where the
  specification's count is 0, and \<^verbatim>\<open>d/a\<close> is never merged into \<^verbatim>\<open>d\<close>.
\<close>

theorem C8_sibling_counted_as_sub_candidate:
  "merge_pass sibling_db None
      \<lparr>candidates = seed [file_dax, file_daby] [], change_lists = [], edited = True\<rparr>
     = Inr \<lparr>candidates = sibling_trie, change_lists = [], edited = True\<rparr>
   \<and> trie_keys ''d/a'' sibling_trie = Inr [''d/a'', ''d/ab'']
   \<and> int (length [''d/a'', ''d/ab'']) - 1 = 1
   \<and> spec_subCandidateCount ''d/a'' sibling_trie = 0
   \<and> SplitCLs sibling_db None [file_dax, file_daby] =
       Inr [\<lparr>cl_path = ''d'', cl_files = {}, cl_owners = Some {''alice''}\<rparr>,
            \<lparr>cl_path = ''d/a'', cl_files = {file_dax}, cl_owners = Some {''alice''}\<rparr>,
            \<lparr>cl_path = ''d/ab'', cl_files = {file_daby}, cl_owners = Some {''bob''}\<rparr>]"
  by code_simp










end
